theory Spec2Isabelle
  imports Main "HOL-Library.Log_Nat"
begin

section \<open>Strings and the proleptic Gregorian calendar\<close>

text \<open>
  A Python \<open>str\<close> is modelled by its UTF-8 encoding, a list of bytes: this is the
  buffer on which CPython's \<open>datetime.fromisoformat\<close> works. The byte \<open>Z\<close> occurs in
  a UTF-8 string only as the letter Z, so replacing it byte by byte is
  \<open>start_time_str.replace("Z", "+00:00")\<close>. Reading the buffer at or beyond its
  length yields the terminating NUL byte.
\<close>

definition str_replace :: "char \<Rightarrow> string \<Rightarrow> string \<Rightarrow> string" where
  "str_replace old new s = concat (map (\<lambda>c. if c = old then new else [c]) s)"

definition byte_at :: "string \<Rightarrow> nat \<Rightarrow> char" where
  "byte_at s i = (if i < length s then s ! i else CHR 0x00)"

definition is_digit :: "char \<Rightarrow> bool" where
  "is_digit c \<longleftrightarrow> (48::nat) \<le> of_char c \<and> (of_char c :: nat) \<le> 57"

definition digit_val :: "char \<Rightarrow> int" where
  "digit_val c = int (of_char c) - 48"

fun parse_digits :: "string \<Rightarrow> nat \<Rightarrow> int \<Rightarrow> nat \<Rightarrow> (int \<times> nat) option" where
  "parse_digits s p var 0 = Some (var, p)"
| "parse_digits s p var (Suc n) =
     (if is_digit (byte_at s p)
      then parse_digits s (Suc p) (var * 10 + digit_val (byte_at s p)) n
      else None)"

definition is_leap :: "int \<Rightarrow> bool" where
  "is_leap y \<longleftrightarrow> y mod 4 = 0 \<and> (y mod 100 \<noteq> 0 \<or> y mod 400 = 0)"

definition days_before_year :: "int \<Rightarrow> int" where
  "days_before_year year =
     (let y = year - 1 in y * 365 + y div 4 - y div 100 + y div 400)"

definition DAYS_IN_MONTH :: "int list" where
  "DAYS_IN_MONTH = [0, 31, 28, 31, 30, 31, 30, 31, 31, 30, 31, 30, 31]"

definition DAYS_BEFORE_MONTH :: "int list" where
  "DAYS_BEFORE_MONTH = [0, 0, 31, 59, 90, 120, 151, 181, 212, 243, 273, 304, 334]"

definition days_in_month :: "int \<Rightarrow> int \<Rightarrow> int" where
  "days_in_month year month =
     (if month = 2 \<and> is_leap year then 29 else DAYS_IN_MONTH ! nat month)"

definition days_before_month :: "int \<Rightarrow> int \<Rightarrow> int" where
  "days_before_month year month =
     DAYS_BEFORE_MONTH ! nat month + (if month > 2 \<and> is_leap year then 1 else 0)"

definition ymd_to_ord :: "int \<Rightarrow> int \<Rightarrow> int \<Rightarrow> int" where
  "ymd_to_ord year month day =
     days_before_year year + days_before_month year month + day"

definition weekday :: "int \<Rightarrow> int \<Rightarrow> int \<Rightarrow> int" where
  "weekday year month day = (ymd_to_ord year month day + 6) mod 7"

definition iso_week1_monday :: "int \<Rightarrow> int" where
  "iso_week1_monday year =
     (let first_day = ymd_to_ord year 1 1;
          first_weekday = (first_day + 6) mod 7;
          week1_monday = first_day - first_weekday
      in if first_weekday > 3 then week1_monday + 7 else week1_monday)"

text \<open>
  \<open>ord_to_ymd\<close> is called with ordinals from 1 on only (week 1 of year 1 starts on
  0001-01-01), where C's and HOL's division agree.
\<close>

definition ord_to_ymd :: "int \<Rightarrow> int \<times> int \<times> int" where
  "ord_to_ymd ordinal =
     (let ordinal = ordinal - 1;
          n400 = ordinal div 146097; n = ordinal mod 146097;
          n100 = n div 36524; n = n mod 36524;
          n4 = n div 1461; n = n mod 1461;
          n1 = n div 365; n = n mod 365;
          year = n400 * 400 + 1 + n100 * 100 + n4 * 4 + n1
      in if n1 = 4 \<or> n100 = 4 then (year - 1, 12, 31)
         else
           let leapyear = (n1 = 3 \<and> (n4 \<noteq> 24 \<or> n100 = 3));
               month = (n + 50) div 32;
               preceding = DAYS_BEFORE_MONTH ! nat month
                           + (if month > 2 \<and> leapyear then 1 else 0)
           in if preceding > n
              then (year, month - 1,
                    n - (preceding - days_in_month year (month - 1)) + 1)
              else (year, month, n - preceding + 1))"

definition iso_to_ymd :: "int \<Rightarrow> int \<Rightarrow> int \<Rightarrow> (int \<times> int \<times> int) option" where
  "iso_to_ymd iso_year iso_week iso_day =
     (if iso_year < 1 \<or> iso_year > 9999 then None
      else if (iso_week \<le> 0 \<or> iso_week \<ge> 53)
              \<and> \<not> (iso_week = 53
                     \<and> (weekday iso_year 1 1 = 3
                          \<or> (weekday iso_year 1 1 = 2 \<and> is_leap iso_year)))
      then None
      else if iso_day \<le> 0 \<or> iso_day \<ge> 8 then None
      else Some (ord_to_ymd (iso_week1_monday iso_year
                             + ((iso_week - 1) * 7 + iso_day - 1))))"

section \<open>\<open>datetime.fromisoformat\<close>\<close>

text \<open>
  The repository calls \<open>datetime.fromisoformat\<close> of the Python standard library
  (the source needs Python 3.12 for its multi-line f-string fields). The functions
  below follow CPython 3.12's parser function by function, with its names:
  finding the date/time separator, the date, the time fields with the fraction, and
  the UTC offset. A failure (\<open>ValueError\<close>) is \<open>None\<close>.
\<close>

fun count_digits :: "string \<Rightarrow> nat" where
  "count_digits [] = 0"
| "count_digits (c # cs) = (if is_digit c then Suc (count_digits cs) else 0)"

definition find_isoformat_datetime_separator :: "string \<Rightarrow> nat option" where
  "find_isoformat_datetime_separator dtstr =
     (let len = length dtstr in
      if len = 7 then Some 7
      else if byte_at dtstr 4 = CHR ''-'' then
        (if byte_at dtstr 5 = CHR ''W'' then
           (if len < 8 then None
            else if len > 8 \<and> byte_at dtstr 8 = CHR ''-'' then
              (if len = 9 then None
               else if len > 10 \<and> is_digit (byte_at dtstr 10) then Some 8
               else Some 10)
            else Some 8)
         else Some 10)
      else if byte_at dtstr 4 = CHR ''W'' then
        (let idx = 7 + count_digits (drop 7 dtstr) in
         if idx < 9 then Some idx
         else if idx mod 2 = 0 then Some 7
         else Some 8)
      else Some 8)"

definition parse_isoformat_date :: "string \<Rightarrow> nat \<Rightarrow> (int \<times> int \<times> int) option" where
  "parse_isoformat_date dtstr len =
     (case parse_digits dtstr 0 0 4 of
        None \<Rightarrow> None
      | Some (year, p) \<Rightarrow>
          let uses_separator = (byte_at dtstr p = CHR ''-'');
              p = (if uses_separator then p + 1 else p)
          in if byte_at dtstr p = CHR ''W'' then
               (case parse_digits dtstr (p + 1) 0 2 of
                  None \<Rightarrow> None
                | Some (iso_week, p) \<Rightarrow>
                    if p < len then
                      (if uses_separator \<and> byte_at dtstr p \<noteq> CHR ''-'' then None
                       else
                         (case parse_digits dtstr (if uses_separator then p + 1 else p) 0 1 of
                            None \<Rightarrow> None
                          | Some (iso_day, _) \<Rightarrow> iso_to_ymd year iso_week iso_day))
                    else iso_to_ymd year iso_week 1)
             else
               (case parse_digits dtstr p 0 2 of
                  None \<Rightarrow> None
                | Some (month, p) \<Rightarrow>
                    if uses_separator \<and> byte_at dtstr p \<noteq> CHR ''-'' then None
                    else
                      (case parse_digits dtstr (if uses_separator then p + 1 else p) 0 2 of
                         None \<Rightarrow> None
                       | Some (day, _) \<Rightarrow> Some (year, month, day))))"

definition correction :: "int list" where
  "correction = [100000, 10000, 1000, 100, 10]"

text \<open>
  The tail of \<open>parse_hh_mm_ss_ff\<close>: up to six digits of the fraction, scaled to
  microseconds, further digits skipped. The flag returned with the fields says that the
  parser stopped before a byte other than NUL.
\<close>

definition parse_fraction ::
  "string \<Rightarrow> nat \<Rightarrow> nat \<Rightarrow> int \<times> int \<times> int \<Rightarrow> ((int \<times> int \<times> int \<times> int) \<times> bool) option" where
  "parse_fraction tstr p_end p vals =
     (let len_remains = p_end - p;
          to_parse = (if len_remains \<ge> 6 then 6 else len_remains)
      in case parse_digits tstr p 0 to_parse of
           None \<Rightarrow> None
         | Some (us, p) \<Rightarrow>
             let microsecond = (if to_parse < 6 then us * correction ! (to_parse - 1) else us);
                 p = p + count_digits (drop p tstr)
             in case vals of (hour, minute, second) \<Rightarrow>
                  Some ((hour, minute, second, microsecond), byte_at tstr p \<noteq> CHR 0x00))"

fun store_val :: "nat \<Rightarrow> int \<Rightarrow> int \<times> int \<times> int \<Rightarrow> int \<times> int \<times> int" where
  "store_val i v (hour, minute, second) =
     (if i = 0 then (v, minute, second)
      else if i = 1 then (hour, v, second)
      else (hour, minute, v))"

text \<open>
  The loop \<open>for (i = 0; i < 3; ++i)\<close> of \<open>parse_hh_mm_ss_ff\<close>, by recursion on the
  number of iterations left.
\<close>

fun hh_mm_ss_loop ::
  "string \<Rightarrow> nat \<Rightarrow> nat \<Rightarrow> nat \<Rightarrow> nat \<Rightarrow> bool \<Rightarrow> int \<times> int \<times> int
     \<Rightarrow> ((int \<times> int \<times> int \<times> int) \<times> bool) option" where
  "hh_mm_ss_loop tstr p_end 0 i p has_separator vals = parse_fraction tstr p_end p vals"
| "hh_mm_ss_loop tstr p_end (Suc n) i p has_separator vals =
     (case parse_digits tstr p 0 2 of
        None \<Rightarrow> None
      | Some (v, p) \<Rightarrow>
          let vals = store_val i v vals;
              c = byte_at tstr p;
              p = p + 1;
              has_separator = (if i = 0 then c = CHR '':'' else has_separator)
          in if p \<ge> p_end then
               (case vals of (hour, minute, second) \<Rightarrow>
                  Some ((hour, minute, second, 0), c \<noteq> CHR 0x00))
             else if has_separator \<and> c = CHR '':'' then
               hh_mm_ss_loop tstr p_end n (i + 1) p has_separator vals
             else if c = CHR ''.'' \<or> c = CHR '','' then
               parse_fraction tstr p_end p vals
             else if \<not> has_separator then
               hh_mm_ss_loop tstr p_end n (i + 1) (p - 1) has_separator vals
             else None)"

definition parse_hh_mm_ss_ff ::
  "string \<Rightarrow> nat \<Rightarrow> nat \<Rightarrow> ((int \<times> int \<times> int \<times> int) \<times> bool) option" where
  "parse_hh_mm_ss_ff tstr p p_end = hh_mm_ss_loop tstr p_end 3 0 p True (0, 0, 0)"

definition is_tz_char :: "char \<Rightarrow> bool" where
  "is_tz_char c \<longleftrightarrow> c = CHR ''Z'' \<or> c = CHR ''+'' \<or> c = CHR ''-''"

fun scan_tz :: "string \<Rightarrow> nat" where
  "scan_tz [] = 0"
| "scan_tz (c # cs) = (if is_tz_char c then 0 else Suc (scan_tz cs))"

text \<open>
  The scan for the offset is a \<open>do ... while (++tzinfo_pos < p_end)\<close>: on an empty
  time string it stops one byte behind the end.
\<close>

definition find_tzinfo_pos :: "string \<Rightarrow> nat" where
  "find_tzinfo_pos tstr = (if tstr = [] then 1 else scan_tz tstr)"

text \<open>
  The result of the time parser: hour, minute, second, microsecond, and, when an offset
  was written, the offset in seconds with its microseconds.
\<close>

definition parse_isoformat_time ::
  "string \<Rightarrow> ((int \<times> int \<times> int \<times> int) \<times> (int \<times> int) option) option" where
  "parse_isoformat_time tstr =
     (let len = length tstr; tzinfo_pos = find_tzinfo_pos tstr in
      case parse_hh_mm_ss_ff tstr 0 tzinfo_pos of
        None \<Rightarrow> None
      | Some (t, rv) \<Rightarrow>
          if tzinfo_pos = len then (if rv then None else Some (t, None))
          else if byte_at tstr tzinfo_pos = CHR ''Z'' then
            (if byte_at tstr (tzinfo_pos + 1) \<noteq> CHR 0x00 then None else Some (t, Some (0, 0)))
          else
            (let tzsign = (if byte_at tstr tzinfo_pos = CHR ''-'' then - 1 else 1 :: int) in
             case parse_hh_mm_ss_ff tstr (tzinfo_pos + 1) len of
               None \<Rightarrow> None
             | Some ((tzhour, tzminute, tzsecond, tzmicrosecond), rv) \<Rightarrow>
                 if rv then None
                 else Some (t, Some (tzsign * (tzhour * 3600 + tzminute * 60 + tzsecond),
                                     tzsign * tzmicrosecond))))"

text \<open>The width of the separator character, from its first UTF-8 byte.\<close>

definition utf8_width :: "char \<Rightarrow> nat" where
  "utf8_width c =
     (let b = (of_char c :: nat) in
      if b < 128 then 1
      else if b div 16 = 14 then 3
      else if b div 16 = 15 then 4
      else 2)"

text \<open>
  A datetime: its fields, and \<open>tzinfo\<close>, the UTC offset in microseconds of an aware
  datetime, \<open>None\<close> for a naive one.
\<close>

record datetime =
  year :: int
  month :: int
  day :: int
  hour :: int
  minute :: int
  second :: int
  microsecond :: int
  tzinfo :: "int option"

text \<open>
  An offset of zero seconds is \<open>timezone.utc\<close> whatever its microseconds; any other
  offset must lie strictly between minus and plus 24 hours.
\<close>

definition tzinfo_from_isoformat_results :: "(int \<times> int) option \<Rightarrow> int option option" where
  "tzinfo_from_isoformat_results tz =
     (case tz of
        None \<Rightarrow> Some None
      | Some (tzoffset, tz_useconds) \<Rightarrow>
          if tzoffset = 0 then Some (Some 0)
          else
            let delta = tzoffset * 1000000 + tz_useconds in
            if - 86400000000 < delta \<and> delta < 86400000000 then Some (Some delta)
            else None)"

definition new_datetime ::
  "int \<times> int \<times> int \<Rightarrow> int \<times> int \<times> int \<times> int \<Rightarrow> int option \<Rightarrow> datetime option" where
  "new_datetime d t tz =
     (case d of (y, m, dd) \<Rightarrow>
      case t of (hh, mi, ss, us) \<Rightarrow>
        if y < 1 \<or> y > 9999 then None
        else if m < 1 \<or> m > 12 then None
        else if dd < 1 \<or> dd > days_in_month y m then None
        else if hh < 0 \<or> hh > 23 then None
        else if mi < 0 \<or> mi > 59 then None
        else if ss < 0 \<or> ss > 59 then None
        else if us < 0 \<or> us > 999999 then None
        else Some \<lparr>year = y, month = m, day = dd, hour = hh, minute = mi, second = ss,
                   microsecond = us, tzinfo = tz\<rparr>)"

definition fromisoformat :: "string \<Rightarrow> datetime option" where
  "fromisoformat date_string =
     (if length date_string < 7 then None
      else
        (case find_isoformat_datetime_separator date_string of
           None \<Rightarrow> None
         | Some separator_location \<Rightarrow>
             (case parse_isoformat_date date_string separator_location of
                None \<Rightarrow> None
              | Some d \<Rightarrow>
                  if length date_string > separator_location then
                    (case parse_isoformat_time
                            (drop (separator_location
                                   + utf8_width (byte_at date_string separator_location))
                               date_string) of
                       None \<Rightarrow> None
                     | Some (t, tz) \<Rightarrow>
                         (case tzinfo_from_isoformat_results tz of
                            None \<Rightarrow> None
                          | Some tzi \<Rightarrow> new_datetime d t tzi))
                  else new_datetime d (0, 0, 0, 0) None)))"

section \<open>\<open>datetime.timestamp\<close> and \<open>int\<close>\<close>

text \<open>
  \<open>timestamp()\<close> returns a float. A finite binary64 number is the pair \<open>(m, e)\<close> of
  its value \<open>m * 2 ^ e\<close>; \<open>binary64_round n d\<close> is the number nearest to the quotient
  \<open>n / d\<close>, ties to even, which is what Python's true division of two integers and
  the hardware operations return (the quotients that occur here are far from the
  subnormal and the infinite range, which the definition leaves out).
\<close>

type_synonym binary64 = "int \<times> int"

definition round_half_even :: "int \<Rightarrow> int \<Rightarrow> int" where
  "round_half_even a b =
     (let q = a div b; r = a mod b in
      if 2 * r < b then q
      else if 2 * r > b then q + 1
      else if even q then q else q + 1)"

definition binary64_exponent :: "int \<Rightarrow> int \<Rightarrow> int" where
  "binary64_exponent n d =
     (let k = bitlen n - bitlen d;
          ge = (if k \<ge> 0 then n \<ge> d * 2 ^ nat k else n * 2 ^ nat (- k) \<ge> d)
      in (if ge then k else k - 1) - 52)"

definition binary64_round_pos :: "int \<Rightarrow> int \<Rightarrow> binary64" where
  "binary64_round_pos n d =
     (let e = binary64_exponent n d in
      if e \<ge> 0 then (round_half_even n (d * 2 ^ nat e), e)
      else (round_half_even (n * 2 ^ nat (- e)) d, e))"

definition binary64_round :: "int \<Rightarrow> int \<Rightarrow> binary64" where
  "binary64_round n d =
     (if n = 0 then (0, 0)
      else if n > 0 then binary64_round_pos n d
      else (case binary64_round_pos (- n) d of (m, e) \<Rightarrow> (- m, e)))"

text \<open>\<open>int(x)\<close> of a float truncates towards zero.\<close>

definition int_of_float :: "binary64 \<Rightarrow> int" where
  "int_of_float x =
     (case x of (m, e) \<Rightarrow>
        if e \<ge> 0 then m * 2 ^ nat e
        else if m \<ge> 0 then m div 2 ^ nat (- e)
        else - ((- m) div 2 ^ nat (- e)))"

text \<open>The float sum of an integer of magnitude below \<open>2 ^ 53\<close> and a float.\<close>

definition float_add_int :: "int \<Rightarrow> binary64 \<Rightarrow> binary64" where
  "float_add_int s x =
     (case x of (m, e) \<Rightarrow>
        if e \<ge> 0 then binary64_round (s + m * 2 ^ nat e) 1
        else binary64_round (s * 2 ^ nat (- e) + m) (2 ^ nat (- e)))"

datatype error = ValueError | OverflowError | OSError | OperationalError

text \<open>
  For a naive datetime \<open>timestamp()\<close> asks the platform for the UTC instant of a local
  time. That resolution depends on the time zone of the process and is a parameter of
  the model: \<open>mktime t\<close> is the epoch second of the local time that lies \<open>t\<close> seconds
  after 1970-01-01T00:00:00 on the local clock, or the exception the platform raises.
\<close>

type_synonym local_zone = "int \<Rightarrow> error + int"

definition seconds_since_epoch :: "datetime \<Rightarrow> int" where
  "seconds_since_epoch dt =
     (ymd_to_ord (year dt) (month dt) (day dt) - 719163) * 86400
     + hour dt * 3600 + minute dt * 60 + second dt"

definition timestamp :: "local_zone \<Rightarrow> datetime \<Rightarrow> error + binary64" where
  "timestamp mktime dt =
     (case tzinfo dt of
        None \<Rightarrow>
          (case mktime (seconds_since_epoch dt) of
             Inl e \<Rightarrow> Inl e
           | Inr s \<Rightarrow> Inr (float_add_int s (binary64_round (microsecond dt) 1000000)))
      | Some utcoffset \<Rightarrow>
          Inr (binary64_round
                 (seconds_since_epoch dt * 1000000 + microsecond dt - utcoffset) 1000000))"

section \<open>The reminder table (\<open>database.py\<close>)\<close>

text \<open>
  The table \<open>reminders\<close>: its rows in rowid order, and \<open>seq\<close>, the largest rowid ever
  given out, which SQLite keeps for an \<open>AUTOINCREMENT\<close> key. The file either holds the
  table or not yet. Failures of the storage itself (I/O, locking) are not modelled.
\<close>

record reminder =
  col_id :: int
  col_user_id :: int
  col_contest_name :: string
  col_contest_url :: string
  col_reminder_time :: int

record database =
  rows :: "reminder list"
  seq :: int

definition initialize_db :: "database option \<Rightarrow> database" where
  "initialize_db file =
     (case file of None \<Rightarrow> \<lparr>rows = [], seq = 0\<rparr> | Some db \<Rightarrow> db)"

text \<open>
  A Python integer bound to a statement parameter must fit SQLite's 64-bit INTEGER;
  otherwise \<open>execute\<close> raises \<open>OverflowError\<close>. An \<open>AUTOINCREMENT\<close> key is one more
  than the largest rowid ever used, and the insertion fails (\<open>SQLITE_FULL\<close>, an
  \<open>OperationalError\<close>) once the largest rowid has been used.
\<close>

definition sqlite_int :: "int \<Rightarrow> bool" where
  "sqlite_int n \<longleftrightarrow> - 9223372036854775808 \<le> n \<and> n \<le> 9223372036854775807"

definition next_rowid :: "database \<Rightarrow> int" where
  "next_rowid db = fold max (map col_id (rows db)) (seq db) + 1"

definition insert_reminder :: "int \<Rightarrow> string \<Rightarrow> string \<Rightarrow> int \<Rightarrow> database \<Rightarrow> database" where
  "insert_reminder user_id contest_name contest_url reminder_time db =
     (let rowid = next_rowid db in
      \<lparr>rows = rows db @ [\<lparr>col_id = rowid, col_user_id = user_id,
                           col_contest_name = contest_name, col_contest_url = contest_url,
                           col_reminder_time = reminder_time\<rparr>],
       seq = rowid\<rparr>)"

definition select_id :: "int \<Rightarrow> string \<Rightarrow> database \<Rightarrow> int list" where
  "select_id user_id contest_url db =
     map col_id (filter (\<lambda>r. col_user_id r = user_id \<and> col_contest_url r = contest_url)
                        (rows db))"

definition fetchone :: "'a list \<Rightarrow> 'a option" where
  "fetchone cursor = (case cursor of [] \<Rightarrow> None | row # _ \<Rightarrow> Some row)"

text \<open>Lines 34 to 36 of \<open>add_reminder\<close>: the Unix time at which the reminder is due.\<close>

definition start_time_unix :: "local_zone \<Rightarrow> string \<Rightarrow> error + int" where
  "start_time_unix mktime start_time_str =
     (case fromisoformat (str_replace (CHR ''Z'') ''+00:00'' start_time_str) of
        None \<Rightarrow> Inl ValueError
      | Some dt_object \<Rightarrow>
          (case timestamp mktime dt_object of
             Inl e \<Rightarrow> Inl e
           | Inr t \<Rightarrow> Inr (int_of_float t)))"

definition reminder_time_unix :: "local_zone \<Rightarrow> string \<Rightarrow> int \<Rightarrow> error + int" where
  "reminder_time_unix mktime start_time_str remind_before_minutes =
     (case start_time_unix mktime start_time_str of
        Inl e \<Rightarrow> Inl e
      | Inr start \<Rightarrow> Inr (start - remind_before_minutes * 60))"

text \<open>
  \<open>add_reminder\<close> returns \<open>True\<close> (added), \<open>False\<close> (already there) or raises; the
  database it leaves is the second component.
\<close>

definition add_reminder ::
  "local_zone \<Rightarrow> int \<Rightarrow> string \<Rightarrow> string \<Rightarrow> string \<Rightarrow> int \<Rightarrow> database
     \<Rightarrow> (error + bool) \<times> database" where
  "add_reminder mktime user_id contest_name contest_url start_time_str remind_before_minutes db =
     (case reminder_time_unix mktime start_time_str remind_before_minutes of
        Inl e \<Rightarrow> (Inl e, db)
      | Inr reminder_time \<Rightarrow>
          if \<not> sqlite_int user_id then (Inl OverflowError, db)
          else
            (case fetchone (select_id user_id contest_url db) of
               Some _ \<Rightarrow> (Inr False, db)
             | None \<Rightarrow>
                 if \<not> sqlite_int reminder_time then (Inl OverflowError, db)
                 else if \<not> sqlite_int (next_rowid db) then (Inl OperationalError, db)
                 else (Inr True,
                       insert_reminder user_id contest_name contest_url reminder_time db)))"

text \<open>
  \<open>get_due_reminders\<close> reads the clock; \<open>current_time_unix\<close> is \<open>int(time.time())\<close>.
\<close>

type_synonym due_row = "int \<times> int \<times> string \<times> string"

text \<open>The columns \<open>id, user_id, contest_name, contest_url\<close> that the query selects.\<close>

definition due_row_of :: "reminder \<Rightarrow> due_row" where
  "due_row_of r = (col_id r, col_user_id r, col_contest_name r, col_contest_url r)"

definition get_due_reminders :: "int \<Rightarrow> database \<Rightarrow> due_row list" where
  "get_due_reminders current_time_unix db =
     map due_row_of (filter (\<lambda>r. col_reminder_time r \<le> current_time_unix) (rows db))"

definition delete_reminder :: "int \<Rightarrow> database \<Rightarrow> (error + unit) \<times> database" where
  "delete_reminder reminder_id db =
     (if \<not> sqlite_int reminder_id then (Inl OverflowError, db)
      else (Inr (), db\<lparr>rows := filter (\<lambda>r. col_id r \<noteq> reminder_id) (rows db)\<rparr>))"

section \<open>The delivery loop (\<open>check_reminders\<close> of \<open>main.py\<close>)\<close>

text \<open>
  Discord is outside the program. \<open>bot.fetch_user\<close> returns a user object (of which the
  loop tests the truth value), raises \<open>discord.errors.NotFound\<close>, or raises another
  \<open>Exception\<close>; \<open>user.send\<close> returns, or raises one of the two. What either call does
  depends on the state \<open>'w\<close> of the outside world, which it may change.
\<close>

datatype fetch_result = User bool | Fetch_NotFound | Fetch_Exception

datatype send_result = Send_ok | Send_NotFound | Send_Exception

record 'w discord =
  fetch_user :: "'w \<Rightarrow> int \<Rightarrow> fetch_result \<times> 'w"
  send :: "'w \<Rightarrow> int \<Rightarrow> string \<Rightarrow> send_result \<times> 'w"

text \<open>
  What one run of the loop does, in order: the calls of \<open>fetch_user\<close> and \<open>send\<close> for
  a due row with their results, the calls of \<open>delete_reminder\<close>, and the two messages
  printed.
\<close>

datatype event =
    Fetch_user due_row fetch_result
  | Send due_row send_result
  | Delete_reminder int
  | Print_not_found int
  | Print_error

definition message :: "string \<Rightarrow> string \<Rightarrow> string" where
  "message contest_name contest_url =
     [CHR 0xE2, CHR 0x8F, CHR 0xB0] @ '' **Reminder!** The contest **'' @ [CHR 0x27]
     @ contest_name @ [CHR 0x27] @ ''** is starting in about 15 minutes!'' @ [CHR 0x0A]
     @ ''Get ready here: '' @ contest_url"

text \<open>
  The last statement of the \<open>try\<close> block: an exception of \<open>delete_reminder\<close> there is
  caught by \<open>except Exception\<close>.
\<close>

definition delete_in_try :: "int \<Rightarrow> database \<Rightarrow> event list \<times> database" where
  "delete_in_try rem_id db =
     (case delete_reminder rem_id db of
        (Inl e, db') \<Rightarrow> ([Delete_reminder rem_id, Print_error], db')
      | (Inr u, db') \<Rightarrow> ([Delete_reminder rem_id], db'))"

text \<open>
  The handler of \<open>discord.errors.NotFound\<close>: an exception of \<open>delete_reminder\<close> there
  leaves the loop.
\<close>

definition not_found_handler ::
  "int \<Rightarrow> int \<Rightarrow> database \<Rightarrow> error option \<times> event list \<times> database" where
  "not_found_handler rem_id user_id db =
     (case delete_reminder rem_id db of
        (Inl e, db') \<Rightarrow> (Some e, [Print_not_found user_id, Delete_reminder rem_id], db')
      | (Inr u, db') \<Rightarrow> (None, [Print_not_found user_id, Delete_reminder rem_id], db'))"

text \<open>The body of the \<open>for\<close> loop, for one due row.\<close>

fun process_reminder ::
  "'w discord \<Rightarrow> due_row \<Rightarrow> database \<times> 'w \<Rightarrow> error option \<times> event list \<times> database \<times> 'w" where
  "process_reminder client (rem_id, user_id, contest_name, contest_url) (db, w) =
     (let row = (rem_id, user_id, contest_name, contest_url) in
      case fetch_user client w user_id of
        (Fetch_NotFound, w) \<Rightarrow>
          (case not_found_handler rem_id user_id db of
             (err, evs, db') \<Rightarrow> (err, Fetch_user row Fetch_NotFound # evs, db', w))
      | (Fetch_Exception, w) \<Rightarrow> (None, [Fetch_user row Fetch_Exception, Print_error], db, w)
      | (User truthy, w) \<Rightarrow>
          if truthy then
            (case send client w user_id (message contest_name contest_url) of
               (Send_ok, w) \<Rightarrow>
                 (case delete_in_try rem_id db of
                    (evs, db') \<Rightarrow>
                      (None, Fetch_user row (User truthy) # Send row Send_ok # evs, db', w))
             | (Send_NotFound, w) \<Rightarrow>
                 (case not_found_handler rem_id user_id db of
                    (err, evs, db') \<Rightarrow>
                      (err, Fetch_user row (User truthy) # Send row Send_NotFound # evs, db', w))
             | (Send_Exception, w) \<Rightarrow>
                 (None, [Fetch_user row (User truthy), Send row Send_Exception, Print_error],
                  db, w))
          else
            (case delete_in_try rem_id db of
               (evs, db') \<Rightarrow> (None, Fetch_user row (User truthy) # evs, db', w)))"

fun for_due_reminders ::
  "'w discord \<Rightarrow> due_row list \<Rightarrow> database \<times> 'w
     \<Rightarrow> error option \<times> event list \<times> database \<times> 'w" where
  "for_due_reminders client [] st = (None, [], st)"
| "for_due_reminders client (row # due_reminders) st =
     (case process_reminder client row st of
        (Some e, evs, st') \<Rightarrow> (Some e, evs, st')
      | (None, evs, st') \<Rightarrow>
          (case for_due_reminders client due_reminders st' of
             (err, evs', st'') \<Rightarrow> (err, evs @ evs', st'')))"

text \<open>
  One tick. \<open>current_time_unix\<close> is the clock as \<open>get_due_reminders\<close> reads it. The
  result: the exception that left the loop, if any, the events, and the new state.
\<close>

definition check_reminders ::
  "'w discord \<Rightarrow> int \<Rightarrow> database \<times> 'w \<Rightarrow> error option \<times> event list \<times> database \<times> 'w" where
  "check_reminders client current_time_unix st =
     for_due_reminders client (get_due_reminders current_time_unix (fst st)) st"

text \<open>
  A history of the process after a tick: calls of \<open>add_reminder\<close> (from the button) and
  further ticks, in any order.
\<close>

datatype call =
    Add_reminder int string string string int
  | Check_reminders int

fun run :: "local_zone \<Rightarrow> 'w discord \<Rightarrow> call list \<Rightarrow> database \<times> 'w \<Rightarrow> database \<times> 'w" where
  "run mktime client [] st = st"
| "run mktime client (Add_reminder user_id contest_name contest_url start_time_str minutes # calls) st =
     run mktime client calls
       (snd (add_reminder mktime user_id contest_name contest_url start_time_str minutes (fst st)),
        snd st)"
| "run mktime client (Check_reminders current_time_unix # calls) st =
     run mktime client calls (snd (snd (check_reminders client current_time_unix st)))"

fun is_registration :: "call \<Rightarrow> bool" where
  "is_registration (Add_reminder user_id contest_name contest_url start_time_str minutes) = True"
| "is_registration (Check_reminders current_time_unix) = False"

text \<open>
  The states the table can be in: rowids are distinct (the primary key), positive, and
  none is larger than \<open>seq\<close>, which is a 64-bit integer.
\<close>

definition wf_db :: "database \<Rightarrow> bool" where
  "wf_db db \<longleftrightarrow>
     distinct (map col_id (rows db))
     \<and> list_all (\<lambda>r. 1 \<le> col_id r \<and> col_id r \<le> seq db) (rows db)
     \<and> 0 \<le> seq db \<and> sqlite_int (seq db)"

section \<open>Timestamps in the extended ISO 8601 format\<close>

text \<open>
  The inputs of the properties about time resolution: the timestamp
  \<open>YYYY-MM-DDTHH:MM:SS\<close> followed by \<open>Z\<close> or by a numeric offset \<open>+HH:MM\<close> or \<open>-HH:MM\<close>,
  written from its fields with zero-padded decimal digits.
\<close>

definition digit_char :: "int \<Rightarrow> char" where
  "digit_char n = char_of (48 + n mod 10)"

definition two_digits :: "int \<Rightarrow> string" where
  "two_digits n = [digit_char (n div 10), digit_char n]"

definition four_digits :: "int \<Rightarrow> string" where
  "four_digits n = [digit_char (n div 1000), digit_char (n div 100), digit_char (n div 10), digit_char n]"

definition sign_char :: "bool \<Rightarrow> char" where
  "sign_char west = (if west then CHR ''-'' else CHR ''+'')"

definition date_time_offset ::
  "int \<Rightarrow> int \<Rightarrow> int \<Rightarrow> string \<Rightarrow> string" where
  "date_time_offset y m d rest =
     four_digits y @ ''-'' @ two_digits m @ ''-'' @ two_digits d @ ''T'' @ rest"

definition time_offset :: "int \<Rightarrow> int \<Rightarrow> int \<Rightarrow> bool \<Rightarrow> int \<Rightarrow> int \<Rightarrow> string" where
  "time_offset hh mm ss west oh om =
     two_digits hh @ '':'' @ two_digits mm @ '':'' @ two_digits ss
     @ [sign_char west] @ two_digits oh @ '':'' @ two_digits om"

definition iso8601_offset ::
  "int \<Rightarrow> int \<Rightarrow> int \<Rightarrow> int \<Rightarrow> int \<Rightarrow> int \<Rightarrow> bool \<Rightarrow> int \<Rightarrow> int \<Rightarrow> string" where
  "iso8601_offset y m d hh mm ss west oh om =
     date_time_offset y m d (time_offset hh mm ss west oh om)"

definition iso8601_utc :: "int \<Rightarrow> int \<Rightarrow> int \<Rightarrow> int \<Rightarrow> int \<Rightarrow> int \<Rightarrow> string" where
  "iso8601_utc y m d hh mm ss =
     date_time_offset y m d
       (two_digits hh @ '':'' @ two_digits mm @ '':'' @ two_digits ss @ ''Z'')"

text \<open>
  The fields of a date and time of the calendar, the UTC instant (in seconds since
  1970-01-01T00:00:00Z) of such fields read as UTC, and the seconds of an offset
  (\<open>west\<close> of Greenwich the offset is negative).
\<close>

definition valid_fields :: "int \<Rightarrow> int \<Rightarrow> int \<Rightarrow> int \<Rightarrow> int \<Rightarrow> int \<Rightarrow> bool" where
  "valid_fields y m d hh mm ss \<longleftrightarrow>
     1 \<le> y \<and> y \<le> 9999 \<and> 1 \<le> m \<and> m \<le> 12 \<and> 1 \<le> d \<and> d \<le> days_in_month y m
     \<and> 0 \<le> hh \<and> hh \<le> 23 \<and> 0 \<le> mm \<and> mm \<le> 59 \<and> 0 \<le> ss \<and> ss \<le> 59"

definition utc_instant :: "int \<Rightarrow> int \<Rightarrow> int \<Rightarrow> int \<Rightarrow> int \<Rightarrow> int \<Rightarrow> int" where
  "utc_instant y m d hh mm ss =
     (ymd_to_ord y m d - 719163) * 86400 + hh * 3600 + mm * 60 + ss"

definition offset_seconds :: "bool \<Rightarrow> int \<Rightarrow> int \<Rightarrow> int" where
  "offset_seconds west oh om = (if west then - 1 else 1) * (oh * 3600 + om * 60)"

section \<open>Notions used by the properties\<close>

text \<open>An event of the processing of a row names that row.\<close>

fun about :: "due_row \<Rightarrow> event \<Rightarrow> bool" where
  "about row (Fetch_user r res) = (r = row)"
| "about row (Send r res) = (r = row)"
| "about row (Delete_reminder rid) = (rid = fst row)"
| "about row (Print_not_found uid) = True"
| "about row Print_error = True"

text \<open>
  The outcomes of a notification attempt as the loop tells them apart: an exception other
  than \<open>NotFound\<close> from either call, and \<open>NotFound\<close> from either call.
\<close>

definition transient :: "due_row \<Rightarrow> event list \<Rightarrow> bool" where
  "transient r trace \<longleftrightarrow>
     Fetch_user r Fetch_Exception \<in> set trace \<or> Send r Send_Exception \<in> set trace"

definition recipient_not_found :: "due_row \<Rightarrow> event list \<Rightarrow> bool" where
  "recipient_not_found r trace \<longleftrightarrow>
     Fetch_user r Fetch_NotFound \<in> set trace \<or> Send r Send_NotFound \<in> set trace"


text \<open>A rowid that is gone and can never be given out again.\<close>

definition retired :: "int \<Rightarrow> database \<Rightarrow> bool" where
  "retired rid db \<longleftrightarrow>
     rid \<notin> col_id ` set (rows db) \<and> rid \<le> seq db \<and> list_all (\<lambda>r. col_id r \<le> seq db) (rows db)"

section \<open>Example states and environments\<close>

text \<open>
  A time zone with one offset at all times (a POSIX \<open>TZ\<close> such as \<open>UTC0\<close> or \<open>IST-5:30\<close>).
  The platform resolves the local time \<open>t\<close> by converting three instants to local time:
  \<open>t\<close> itself, \<open>t\<close> minus the offset, and the instant 24 hours before that; it raises
  \<open>ValueError\<close> when one of them leaves the years 1 to 9999, which the first does at the
  end of year 9999 and the third does on 0001-01-01.
\<close>

definition fixed_zone :: "int \<Rightarrow> local_zone" where
  "fixed_zone utcoffset t =
     (if t + utcoffset < - 62135596800 \<or> t + utcoffset > 253402300799
         \<or> t - 86400 < - 62135596800
      then Inl ValueError
      else Inr (t - utcoffset))"

text \<open>Two time zones of the process: \<open>TZ=UTC0\<close> and \<open>TZ=IST-5:30\<close>.\<close>

definition zone_utc :: local_zone where
  "zone_utc = fixed_zone 0"

definition zone_ist :: local_zone where
  "zone_ist = fixed_zone 19800"

definition empty_db :: database where
  "empty_db = initialize_db None"

definition example_rows :: "reminder list" where
  "example_rows =
     [\<lparr>col_id = 1, col_user_id = 7, col_contest_name = ''Round A'',
       col_contest_url = ''https://x/41'', col_reminder_time = 999\<rparr>,
      \<lparr>col_id = 2, col_user_id = 7, col_contest_name = ''Round B'',
       col_contest_url = ''https://x/42'', col_reminder_time = 1001\<rparr>]"

definition example_db :: database where
  "example_db = \<lparr>rows = example_rows, seq = 2\<rparr>"

text \<open>
  A Discord in which user 8 does not exist, fetching user 9 fails, and every other user
  receives messages; its state counts the calls. With it, a table of four reminders, and
  the events and the table after a tick at time 1000.
\<close>

definition example_client :: "nat discord" where
  "example_client =
     \<lparr>fetch_user = (\<lambda>w user_id.
         (if user_id = 8 then Fetch_NotFound
          else if user_id = 9 then Fetch_Exception
          else User True, Suc w)),
      send = (\<lambda>w user_id text. (Send_ok, Suc w))\<rparr>"


definition loop_db :: database where
  "loop_db =
     \<lparr>rows =
        [\<lparr>col_id = 1, col_user_id = 7, col_contest_name = ''Round A'',
          col_contest_url = ''https://x/41'', col_reminder_time = 900\<rparr>,
         \<lparr>col_id = 2, col_user_id = 8, col_contest_name = ''Round A'',
          col_contest_url = ''https://x/41'', col_reminder_time = 950\<rparr>,
         \<lparr>col_id = 3, col_user_id = 9, col_contest_name = ''Round A'',
          col_contest_url = ''https://x/41'', col_reminder_time = 990\<rparr>,
         \<lparr>col_id = 4, col_user_id = 7, col_contest_name = ''Round B'',
          col_contest_url = ''https://x/42'', col_reminder_time = 2000\<rparr>],
      seq = 4\<rparr>"

definition loop_trace :: "event list" where
  "loop_trace =
     [Fetch_user (1, 7, ''Round A'', ''https://x/41'') (User True),
      Send (1, 7, ''Round A'', ''https://x/41'') Send_ok,
      Delete_reminder 1,
      Fetch_user (2, 8, ''Round A'', ''https://x/41'') Fetch_NotFound,
      Print_not_found 8,
      Delete_reminder 2,
      Fetch_user (3, 9, ''Round A'', ''https://x/41'') Fetch_Exception,
      Print_error]"

definition loop_db_after :: database where
  "loop_db_after =
     \<lparr>rows =
        [\<lparr>col_id = 3, col_user_id = 9, col_contest_name = ''Round A'',
          col_contest_url = ''https://x/41'', col_reminder_time = 990\<rparr>,
         \<lparr>col_id = 4, col_user_id = 7, col_contest_name = ''Round B'',
          col_contest_url = ''https://x/42'', col_reminder_time = 2000\<rparr>],
      seq = 4\<rparr>"

section \<open>Properties\<close>

subsection \<open>Removal\<close>

lemma delete_reminder_rows:
  "sqlite_int rid \<Longrightarrow>
   delete_reminder rid db = (Inr (), db\<lparr>rows := filter (\<lambda>r. col_id r \<noteq> rid) (rows db)\<rparr>)"
  by (simp add: delete_reminder_def)

lemma filter_id_absent:
  "rid \<notin> col_id ` set rs \<Longrightarrow> filter (\<lambda>r. col_id r \<noteq> rid) rs = rs"
  by (induction rs) auto

lemma filter_id_distinct_length:
  "distinct (map col_id rs) \<Longrightarrow> rid \<in> col_id ` set rs \<Longrightarrow>
   Suc (length (filter (\<lambda>r. col_id r \<noteq> rid) rs)) = length rs"
proof (induction rs)
  case Nil
  then show ?case by simp
next
  case (Cons r rs)
  show ?case
  proof (cases "col_id r = rid")
    case True
    with Cons.prems have "rid \<notin> col_id ` set rs" by auto
    then show ?thesis using True by (simp add: filter_id_absent)
  next
    case False
    with Cons show ?thesis by auto
  qed
qed

text \<open>
  Claim C8. For every id (a rowid, hence a 64-bit integer) \<open>delete_reminder\<close> does not
  raise. It removes the rows with that id and keeps every other row; with distinct rowids
  that is exactly one row when the id is present. When the id is absent the database is
  unchanged, and deleting twice leaves the database that deleting once leaves, without
  that id.
\<close>
theorem delete_reminder_idempotent:
  assumes "sqlite_int rid"
  shows "fst (delete_reminder rid db) = Inr ()
    \<and> rows (snd (delete_reminder rid db)) = filter (\<lambda>r. col_id r \<noteq> rid) (rows db)
    \<and> seq (snd (delete_reminder rid db)) = seq db
    \<and> rid \<notin> col_id ` set (rows (snd (delete_reminder rid db)))
    \<and> (distinct (map col_id (rows db)) \<and> rid \<in> col_id ` set (rows db) \<longrightarrow>
          Suc (length (rows (snd (delete_reminder rid db)))) = length (rows db))
    \<and> (rid \<notin> col_id ` set (rows db) \<longrightarrow> snd (delete_reminder rid db) = db)
    \<and> delete_reminder rid (snd (delete_reminder rid db)) = delete_reminder rid db"
  using assms
  by (auto simp: delete_reminder_rows filter_id_absent filter_id_distinct_length)

theorem delete_reminder_idempotent_witness:
  "sqlite_int 1
   \<and> fst (delete_reminder 1 example_db) = Inr ()
   \<and> map col_id (rows (snd (delete_reminder 1 example_db))) = [2]
   \<and> delete_reminder 1 (snd (delete_reminder 1 example_db)) = delete_reminder 1 example_db
   \<and> snd (delete_reminder 5 example_db) = example_db"
proof -
  have a: "sqlite_int 1" and b: "sqlite_int 5" by (simp_all add: sqlite_int_def)
  have c: "5 \<notin> col_id ` set (rows example_db)"
    by (simp add: example_db_def example_rows_def)
  show ?thesis
    using delete_reminder_idempotent [OF a, of example_db]
      delete_reminder_idempotent [OF b, of example_db] a c
    by (simp add: example_db_def example_rows_def)
qed


subsection \<open>Due selection\<close>

lemma get_due_alt:
  "get_due_reminders now db
   = map due_row_of (filter (\<lambda>r. col_reminder_time r \<le> now) (rows db))"
  by (simp add: get_due_reminders_def)

lemma fst_due_row_of: "fst (due_row_of r) = col_id r"
  by (simp add: due_row_of_def)

lemma map_fst_due: "map fst (map due_row_of rs) = map col_id rs"
  by (simp add: due_row_of_def comp_def)

lemma distinct_due_rows:
  "distinct (map col_id rs) \<Longrightarrow> distinct (map fst (map due_row_of (filter P rs)))"
  by (simp only: map_fst_due distinct_map_filter)

lemma distinct_get_due_ids:
  "wf_db db \<Longrightarrow> distinct (map fst (get_due_reminders now db))"
  unfolding get_due_alt wf_db_def by (blast intro: distinct_due_rows)

lemma due_row_of_inj:
  "distinct (map col_id rs) \<Longrightarrow> r \<in> set rs \<Longrightarrow> r' \<in> set rs \<Longrightarrow>
   due_row_of r = due_row_of r' \<Longrightarrow> r = r'"
  by (metis distinct_map fst_due_row_of inj_onD)

text \<open>
  Claim C2. For every table and every time \<open>now\<close>, \<open>get_due_reminders\<close> returns exactly
  the rows whose reminder time is at most \<open>now\<close> (each once, rowids being distinct): a row
  due at \<open>now - 1\<close> is returned, a row due at \<open>now + 1\<close> is not. The statement is about the
  set of rows returned and says nothing of their order.
\<close>
theorem get_due_reminders_threshold:
  "set (get_due_reminders now db)
     = due_row_of ` {r \<in> set (rows db). col_reminder_time r \<le> now}
   \<and> (wf_db db \<longrightarrow> distinct (get_due_reminders now db))
   \<and> (\<forall>r \<in> set (rows db). col_reminder_time r = now - 1 \<longrightarrow>
         due_row_of r \<in> set (get_due_reminders now db))
   \<and> (wf_db db \<longrightarrow>
        (\<forall>r \<in> set (rows db). col_reminder_time r = now + 1 \<longrightarrow>
           due_row_of r \<notin> set (get_due_reminders now db)))"
proof (intro conjI impI ballI)
  show "set (get_due_reminders now db)
     = due_row_of ` {r \<in> set (rows db). col_reminder_time r \<le> now}"
    by (auto simp: get_due_alt)
next
  assume "wf_db db"
  then have "distinct (map fst (get_due_reminders now db))"
    by (rule distinct_get_due_ids)
  then show "distinct (get_due_reminders now db)"
    by (simp add: distinct_map)
next
  fix r assume "r \<in> set (rows db)" "col_reminder_time r = now - 1"
  then show "due_row_of r \<in> set (get_due_reminders now db)"
    by (auto simp: get_due_alt)
next
  fix r assume wf: "wf_db db" and r: "r \<in> set (rows db)" and t: "col_reminder_time r = now + 1"
  show "due_row_of r \<notin> set (get_due_reminders now db)"
  proof
    assume "due_row_of r \<in> set (get_due_reminders now db)"
    then obtain r' where r': "r' \<in> set (rows db)" "col_reminder_time r' \<le> now"
      "due_row_of r' = due_row_of r"
      by (auto simp: get_due_alt)
    from wf have "distinct (map col_id (rows db))" by (simp add: wf_db_def)
    from due_row_of_inj [OF this r'(1) r r'(3)] r'(2) t show False by simp
  qed
qed

lemma wf_example_db: "wf_db example_db"
  by (simp add: wf_db_def example_db_def example_rows_def sqlite_int_def)

theorem get_due_reminders_threshold_witness:
  "wf_db example_db
   \<and> get_due_reminders 1000 example_db = [(1, 7, ''Round A'', ''https://x/41'')]
   \<and> example_rows ! 0 \<in> set (rows example_db)
   \<and> col_reminder_time (example_rows ! 0) = 1000 - 1
   \<and> due_row_of (example_rows ! 0) \<in> set (get_due_reminders 1000 example_db)
   \<and> example_rows ! 1 \<in> set (rows example_db)
   \<and> col_reminder_time (example_rows ! 1) = 1000 + 1
   \<and> due_row_of (example_rows ! 1) \<notin> set (get_due_reminders 1000 example_db)"
proof -
  have m: "example_rows ! 0 \<in> set (rows example_db)" "example_rows ! 1 \<in> set (rows example_db)"
    by (simp_all add: example_db_def example_rows_def)
  have t: "col_reminder_time (example_rows ! 0) = 1000 - 1"
    "col_reminder_time (example_rows ! 1) = 1000 + 1"
    by (simp_all add: example_rows_def)
  have v: "get_due_reminders 1000 example_db = [(1, 7, ''Round A'', ''https://x/41'')]"
    by (simp add: get_due_reminders_def due_row_of_def example_db_def example_rows_def)
  from get_due_reminders_threshold [of 1000 example_db] wf_example_db m t
  have "due_row_of (example_rows ! 0) \<in> set (get_due_reminders 1000 example_db)"
    "due_row_of (example_rows ! 1) \<notin> set (get_due_reminders 1000 example_db)"
    by blast+
  with wf_example_db m t v show ?thesis by blast
qed


subsection \<open>Registration\<close>

lemma fetchone_None: "fetchone xs = None \<longleftrightarrow> xs = []"
  by (cases xs) (simp_all add: fetchone_def)

lemma select_id_empty:
  "select_id uid url db = [] \<longleftrightarrow>
   \<not> (\<exists>r \<in> set (rows db). col_user_id r = uid \<and> col_contest_url r = url)"
  by (auto simp: select_id_def filter_empty_conv)

text \<open>
  Claim C6. When the start time cannot be parsed, \<open>add_reminder\<close> raises \<open>ValueError\<close>
  to its caller and leaves the database as it was.
\<close>
theorem add_reminder_invalid_timestamp:
  assumes "fromisoformat (str_replace (CHR ''Z'') ''+00:00'' start_time_str) = None"
  shows "add_reminder mktime user_id contest_name contest_url start_time_str minutes db
         = (Inl ValueError, db)"
  using assms by (simp add: add_reminder_def reminder_time_unix_def start_time_unix_def)

lemma fromisoformat_short: "length s < 7 \<Longrightarrow> fromisoformat s = None"
  by (simp add: fromisoformat_def)

theorem add_reminder_invalid_timestamp_witness:
  "fromisoformat (str_replace (CHR ''Z'') ''+00:00'' ''soon'') = None
   \<and> add_reminder zone_utc 7 ''Round A'' ''https://x/41'' ''soon'' 15 example_db
       = (Inl ValueError, example_db)"
proof -
  have h: "fromisoformat (str_replace (CHR ''Z'') ''+00:00'' ''soon'') = None"
    by (simp add: str_replace_def fromisoformat_short)
  from add_reminder_invalid_timestamp [OF h] h show ?thesis by simp
qed

lemma add_reminder_new:
  assumes "reminder_time_unix mk s lead = Inr t" "sqlite_int uid" "sqlite_int t"
    "sqlite_int (next_rowid db)"
    "\<not> (\<exists>r \<in> set (rows db). col_user_id r = uid \<and> col_contest_url r = url)"
  shows "add_reminder mk uid n url s lead db = (Inr True, insert_reminder uid n url t db)"
  using assms select_id_empty [of uid url db]
  by (simp add: add_reminder_def fetchone_None [THEN iffD2])

lemma add_reminder_existing:
  assumes "reminder_time_unix mk s lead = Inr t" "sqlite_int uid"
    "\<exists>r \<in> set (rows db). col_user_id r = uid \<and> col_contest_url r = url"
  shows "add_reminder mk uid n url s lead db = (Inr False, db)"
proof -
  from assms(3) have "select_id uid url db \<noteq> []" by (simp add: select_id_empty)
  then obtain x where "fetchone (select_id uid url db) = Some x"
    by (cases "select_id uid url db") (simp_all add: fetchone_def)
  with assms(1,2) show ?thesis by (simp add: add_reminder_def)
qed

lemma rows_insert_reminder:
  "rows (insert_reminder uid n url t db)
   = rows db @ [\<lparr>col_id = next_rowid db, col_user_id = uid, col_contest_name = n,
                  col_contest_url = url, col_reminder_time = t\<rparr>]"
  by (simp add: insert_reminder_def Let_def)

text \<open>
  Claim C1. Two calls of \<open>add_reminder\<close> with the same user and contest URL, whatever the
  names, start times and lead times (both start times being valid, the key not yet in
  the table, and the values within SQLite's integers): the first returns \<open>True\<close> and
  appends one row, the second returns \<open>False\<close> and leaves the database unchanged, which
  then holds exactly one row with that key.
\<close>
theorem add_reminder_twice:
  assumes first: "reminder_time_unix mk1 start1 minutes1 = Inr t1"
    and second: "reminder_time_unix mk2 start2 minutes2 = Inr t2"
    and fits: "sqlite_int user_id" "sqlite_int t1" "sqlite_int (next_rowid db)"
    and fresh: "\<not> (\<exists>r \<in> set (rows db). col_user_id r = user_id \<and> col_contest_url r = contest_url)"
  shows "\<exists>db1.
      add_reminder mk1 user_id name1 contest_url start1 minutes1 db = (Inr True, db1)
    \<and> rows db1 = rows db @ [\<lparr>col_id = next_rowid db, col_user_id = user_id,
                               col_contest_name = name1, col_contest_url = contest_url,
                               col_reminder_time = t1\<rparr>]
    \<and> add_reminder mk2 user_id name2 contest_url start2 minutes2 db1 = (Inr False, db1)
    \<and> length (filter (\<lambda>r. col_user_id r = user_id \<and> col_contest_url r = contest_url)
                 (rows db1)) = 1"
proof -
  let ?db1 = "insert_reminder user_id name1 contest_url t1 db"
  have a: "add_reminder mk1 user_id name1 contest_url start1 minutes1 db = (Inr True, ?db1)"
    using first fits fresh by (rule add_reminder_new)
  have r: "rows ?db1 = rows db @ [\<lparr>col_id = next_rowid db, col_user_id = user_id,
                               col_contest_name = name1, col_contest_url = contest_url,
                               col_reminder_time = t1\<rparr>]"
    by (rule rows_insert_reminder)
  have "\<exists>r \<in> set (rows ?db1). col_user_id r = user_id \<and> col_contest_url r = contest_url"
    by (simp add: r)
  with second fits(1)
  have b: "add_reminder mk2 user_id name2 contest_url start2 minutes2 ?db1 = (Inr False, ?db1)"
    by (rule add_reminder_existing)
  from fresh have "filter (\<lambda>r. col_user_id r = user_id \<and> col_contest_url r = contest_url)
                 (rows db) = []"
    by (auto simp: filter_empty_conv)
  then have c: "length (filter (\<lambda>r. col_user_id r = user_id \<and> col_contest_url r = contest_url)
                 (rows ?db1)) = 1"
    by (simp add: r)
  from a r b c show ?thesis by blast
qed

theorem add_reminder_twice_witness:
  "reminder_time_unix zone_utc ''2030-01-01T00:00:00Z'' 15 = Inr 1893455100
   \<and> reminder_time_unix zone_ist ''2030-01-01T09:00:00'' 30 = Inr 1893466800
   \<and> sqlite_int 7 \<and> sqlite_int 1893455100 \<and> sqlite_int (next_rowid empty_db)
   \<and> \<not> (\<exists>r \<in> set (rows empty_db). col_user_id r = 7 \<and> col_contest_url r = ''https://x/42'')
   \<and> fst (add_reminder zone_utc 7 ''New Year Cup'' ''https://x/42''
             ''2030-01-01T00:00:00Z'' 15 empty_db) = Inr True
   \<and> rows (snd (add_reminder zone_utc 7 ''New Year Cup'' ''https://x/42''
                   ''2030-01-01T00:00:00Z'' 15 empty_db))
       = [\<lparr>col_id = 1, col_user_id = 7, col_contest_name = ''New Year Cup'',
           col_contest_url = ''https://x/42'', col_reminder_time = 1893455100\<rparr>]
   \<and> add_reminder zone_ist 7 ''Renamed'' ''https://x/42'' ''2030-01-01T09:00:00'' 30
         (snd (add_reminder zone_utc 7 ''New Year Cup'' ''https://x/42''
                 ''2030-01-01T00:00:00Z'' 15 empty_db))
       = (Inr False,
          snd (add_reminder zone_utc 7 ''New Year Cup'' ''https://x/42''
                 ''2030-01-01T00:00:00Z'' 15 empty_db))"
proof -
  have t1: "reminder_time_unix zone_utc ''2030-01-01T00:00:00Z'' 15 = Inr 1893455100"
    by code_simp
  have t2: "reminder_time_unix zone_ist ''2030-01-01T09:00:00'' 30 = Inr 1893466800"
    by code_simp
  have f: "sqlite_int 7" "sqlite_int 1893455100" "sqlite_int (next_rowid empty_db)"
    by (simp_all add: sqlite_int_def next_rowid_def empty_db_def initialize_db_def)
  have k: "\<not> (\<exists>r \<in> set (rows empty_db).
                col_user_id r = 7 \<and> col_contest_url r = ''https://x/42'')"
    by (simp add: empty_db_def initialize_db_def)
  have n: "next_rowid empty_db = 1" "rows empty_db = []"
    by (simp_all add: next_rowid_def empty_db_def initialize_db_def)
  from add_reminder_twice [OF t1 t2 f k, of "''New Year Cup''" "''Renamed''"]
  obtain db1 where
    "add_reminder zone_utc 7 ''New Year Cup'' ''https://x/42'' ''2030-01-01T00:00:00Z'' 15
       empty_db = (Inr True, db1)"
    "rows db1 = rows empty_db @ [\<lparr>col_id = next_rowid empty_db, col_user_id = 7,
        col_contest_name = ''New Year Cup'', col_contest_url = ''https://x/42'',
        col_reminder_time = 1893455100\<rparr>]"
    "add_reminder zone_ist 7 ''Renamed'' ''https://x/42'' ''2030-01-01T09:00:00'' 30 db1
       = (Inr False, db1)"
    by blast
  with t1 t2 f k n show ?thesis by simp
qed


subsection \<open>The delivery loop\<close>

text \<open>
  First the body of the loop for one row: which events it produces and what it does to
  the table. Then the loop, by induction on the list of due rows.
\<close>

lemmas process_splits =
  prod.splits fetch_result.splits send_result.splits if_splits sum.splits

lemma snd_delete_reminder:
  "snd (delete_reminder rid db) = db
   \<or> snd (delete_reminder rid db) = db\<lparr>rows := filter (\<lambda>r. col_id r \<noteq> rid) (rows db)\<rparr>"
  by (simp add: delete_reminder_def)

lemma process_reminder_about:
  assumes "process_reminder client row st = (err, evs, st')"
  shows "\<forall>ev \<in> set evs. about row ev"
  using assms
  by (cases row; cases st)
     (auto simp: Let_def delete_in_try_def not_found_handler_def split: process_splits)

lemma process_reminder_starts:
  assumes "process_reminder client row st = (err, evs, st')"
  shows "\<exists>res evs'. evs = Fetch_user row res # evs'"
  using assms
  by (cases row; cases st)
     (auto simp: Let_def delete_in_try_def not_found_handler_def split: process_splits)

lemma process_reminder_db:
  assumes "process_reminder client row (db, w) = (err, evs, db', w')"
  shows "(Delete_reminder (fst row) \<notin> set evs \<and> db' = db)
         \<or> (Delete_reminder (fst row) \<in> set evs \<and> db' = snd (delete_reminder (fst row) db))"
  using assms
  by (cases row)
     (auto simp: Let_def delete_in_try_def not_found_handler_def split: process_splits)

lemma process_reminder_sent:
  assumes "process_reminder client row st = (err, evs, st')" "Send r Send_ok \<in> set evs"
  shows "Delete_reminder (fst row) \<in> set evs"
  using assms
  by (cases row; cases st)
     (auto simp: Let_def delete_in_try_def not_found_handler_def split: process_splits)

lemma process_reminder_not_found:
  assumes "process_reminder client row st = (err, evs, st')"
    "Fetch_user r Fetch_NotFound \<in> set evs \<or> Send r Send_NotFound \<in> set evs"
  shows "Delete_reminder (fst row) \<in> set evs \<and> Send r' Send_ok \<notin> set evs"
  using assms
  by (cases row; cases st)
     (auto simp: Let_def delete_in_try_def not_found_handler_def split: process_splits)

lemma process_reminder_transient:
  assumes "process_reminder client row st = (err, evs, st')"
    "Fetch_user r Fetch_Exception \<in> set evs \<or> Send r Send_Exception \<in> set evs"
  shows "Delete_reminder rid \<notin> set evs"
  using assms
  by (cases row; cases st)
     (auto simp: Let_def delete_in_try_def not_found_handler_def split: process_splits)


lemma for_due_Cons:
  assumes "for_due_reminders client (row # rs) st = (err, trace, st')"
  obtains (stop) e where "process_reminder client row st = (Some e, trace, st')" "err = Some e"
  | (continue) evs st1 trace2 where "process_reminder client row st = (None, evs, st1)"
      "for_due_reminders client rs st1 = (err, trace2, st')" "trace = evs @ trace2"
  using assms
  by (cases "process_reminder client row st") (auto split: option.splits prod.splits)

lemma for_due_about:
  assumes "for_due_reminders client rs st = (err, trace, st')" "ev \<in> set trace"
  shows "\<exists>row \<in> set rs. about row ev"
  using assms
proof (induction rs arbitrary: st err trace st')
  case Nil
  then show ?case by simp
next
  case (Cons row rs)
  from Cons.prems(1) show ?case
  proof (cases rule: for_due_Cons)
    case (stop e)
    with Cons.prems(2) process_reminder_about show ?thesis by fastforce
  next
    case (continue evs st1 trace2)
    from Cons.prems(2) continue(3) consider "ev \<in> set evs" | "ev \<in> set trace2" by auto
    then show ?thesis
    proof cases
      case 1
      with continue(1) process_reminder_about show ?thesis by fastforce
    next
      case 2
      from Cons.IH [OF continue(2) 2] show ?thesis by auto
    qed
  qed
qed

lemma for_due_fetch_row:
  assumes "for_due_reminders client rs st = (err, trace, st')" "Fetch_user r res \<in> set trace"
  shows "r \<in> set rs"
  using for_due_about [OF assms] by auto

lemma for_due_send_row:
  assumes "for_due_reminders client rs st = (err, trace, st')" "Send r res \<in> set trace"
  shows "r \<in> set rs"
  using for_due_about [OF assms] by auto

lemma for_due_delete_row:
  assumes "for_due_reminders client rs st = (err, trace, st')" "Delete_reminder rid \<in> set trace"
  shows "rid \<in> fst ` set rs"
  using for_due_about [OF assms] by auto

lemma process_reminder_delete_after_fetch:
  assumes "process_reminder client row st = (err, evs, st')"
    "evs = pre @ Delete_reminder rid # post"
  shows "\<exists>res. Fetch_user row res \<in> set pre \<and> fst row = rid"
proof -
  from process_reminder_starts [OF assms(1)]
  obtain res evs' where evs: "evs = Fetch_user row res # evs'" by blast
  with assms(2) have "pre \<noteq> []" by (cases pre) auto
  with evs assms(2) have "hd pre = Fetch_user row res" by (cases pre) auto
  with \<open>pre \<noteq> []\<close> have "Fetch_user row res \<in> set pre" by (metis hd_in_set)
  moreover from process_reminder_about [OF assms(1)] assms(2) have "rid = fst row" by auto
  ultimately show ?thesis by blast
qed

lemma for_due_delete_after_fetch:
  assumes "for_due_reminders client rs st = (err, trace, st')"
    "trace = pre @ Delete_reminder rid # post"
  shows "\<exists>row res. row \<in> set rs \<and> fst row = rid \<and> Fetch_user row res \<in> set pre"
  using assms
proof (induction rs arbitrary: st err trace st' pre)
  case Nil
  then show ?case by simp
next
  case (Cons row rs)
  from Cons.prems(1) show ?case
  proof (cases rule: for_due_Cons)
    case (stop e)
    from process_reminder_delete_after_fetch [OF stop(1) Cons.prems(2)]
    obtain res where "Fetch_user row res \<in> set pre" "fst row = rid" by blast
    then show ?thesis by (intro exI [of _ row] exI [of _ res]) simp
  next
    case (continue evs st1 trace2)
    from Cons.prems(2) continue(3) have "evs @ trace2 = pre @ Delete_reminder rid # post"
      by simp
    then consider
      (left) us where "evs = pre @ us" "us @ trace2 = Delete_reminder rid # post" "us \<noteq> []"
    | (right) us where "evs @ us = pre" "trace2 = us @ Delete_reminder rid # post"
      by (auto simp: append_eq_append_conv2) (metis self_append_conv2)
    then show ?thesis
    proof cases
      case left
      then obtain us' where "us = Delete_reminder rid # us'" by (cases us) auto
      with left(1) have "evs = pre @ Delete_reminder rid # us'" by simp
      from process_reminder_delete_after_fetch [OF continue(1) this]
      obtain res where "Fetch_user row res \<in> set pre" "fst row = rid" by blast
      then show ?thesis by (intro exI [of _ row] exI [of _ res]) simp
    next
      case right
      from Cons.IH [OF continue(2) right(2)]
      obtain r res where "r \<in> set rs" "fst r = rid" "Fetch_user r res \<in> set us" by blast
      with right(1) show ?thesis by (intro exI [of _ r] exI [of _ res]) auto
    qed
  qed
qed






text \<open>The table during a tick: rows are only deleted, and \<open>seq\<close> stays.\<close>

lemma delete_reminder_keeps:
  "r \<in> set (rows db) \<Longrightarrow> col_id r \<noteq> rid \<Longrightarrow> r \<in> set (rows (snd (delete_reminder rid db)))"
  by (simp add: delete_reminder_def)

lemma delete_reminder_subset:
  "set (rows (snd (delete_reminder rid db))) \<subseteq> set (rows db)"
  by (auto simp: delete_reminder_def)

lemma delete_reminder_seq: "seq (snd (delete_reminder rid db)) = seq db"
  by (simp add: delete_reminder_def)

lemma delete_reminder_removes:
  "sqlite_int rid \<Longrightarrow> rid \<notin> col_id ` set (rows (snd (delete_reminder rid db)))"
  by (auto simp: delete_reminder_def)

lemma delete_reminder_distinct:
  "distinct (map col_id (rows db)) \<Longrightarrow>
   distinct (map col_id (rows (snd (delete_reminder rid db))))"
  by (simp add: delete_reminder_def distinct_map_filter)

lemma process_reminder_subset:
  assumes "process_reminder client row (db, w) = (err, evs, db', w')"
  shows "set (rows db') \<subseteq> set (rows db) \<and> seq db' = seq db
         \<and> (distinct (map col_id (rows db)) \<longrightarrow> distinct (map col_id (rows db')))"
  using process_reminder_db [OF assms] delete_reminder_subset [of "fst row" db]
    delete_reminder_seq [of "fst row" db] delete_reminder_distinct [of db "fst row"]
  by auto

lemma process_reminder_keeps:
  assumes "process_reminder client row (db, w) = (err, evs, db', w')"
    "r \<in> set (rows db)" "Delete_reminder (col_id r) \<notin> set evs"
  shows "r \<in> set (rows db')"
proof -
  from process_reminder_db [OF assms(1)] assms(3)
  consider "db' = db" | "col_id r \<noteq> fst row" "db' = snd (delete_reminder (fst row) db)"
    by metis
  then show ?thesis
    using assms(2) delete_reminder_keeps [of r db "fst row"] by cases simp_all
qed

lemma process_reminder_removes:
  assumes "process_reminder client row (db, w) = (err, evs, db', w')"
    "Delete_reminder rid \<in> set evs" "sqlite_int rid"
  shows "rid \<notin> col_id ` set (rows db')"
proof -
  from process_reminder_about [OF assms(1)] assms(2) have "rid = fst row" by auto
  with process_reminder_db [OF assms(1)] assms(2,3) delete_reminder_removes [of rid db]
  show ?thesis by auto
qed

lemma for_due_subset:
  assumes "for_due_reminders client rs (db, w) = (err, trace, db', w')"
  shows "set (rows db') \<subseteq> set (rows db) \<and> seq db' = seq db
         \<and> (distinct (map col_id (rows db)) \<longrightarrow> distinct (map col_id (rows db')))"
  using assms
proof (induction rs arbitrary: db w err trace db' w')
  case Nil
  then show ?case by simp
next
  case (Cons row rs)
  from Cons.prems show ?case
  proof (cases rule: for_due_Cons)
    case (stop e)
    from process_reminder_subset [OF stop(1)] show ?thesis .
  next
    case (continue evs st1 trace2)
    obtain db1 w1 where st1: "st1 = (db1, w1)" by (cases st1)
    from process_reminder_subset [OF continue(1) [unfolded st1]]
      Cons.IH [OF continue(2) [unfolded st1]]
    show ?thesis by auto
  qed
qed

lemma for_due_keeps:
  assumes "for_due_reminders client rs (db, w) = (err, trace, db', w')"
    "r \<in> set (rows db)" "Delete_reminder (col_id r) \<notin> set trace"
  shows "r \<in> set (rows db')"
  using assms
proof (induction rs arbitrary: db w err trace db' w')
  case Nil
  then show ?case by simp
next
  case (Cons row rs)
  from Cons.prems(1) show ?case
  proof (cases rule: for_due_Cons)
    case (stop e)
    from process_reminder_keeps [OF stop(1) Cons.prems(2,3)] show ?thesis .
  next
    case (continue evs st1 trace2)
    obtain db1 w1 where st1: "st1 = (db1, w1)" by (cases st1)
    from Cons.prems(3) continue(3)
    have no: "Delete_reminder (col_id r) \<notin> set evs" "Delete_reminder (col_id r) \<notin> set trace2"
      by auto
    from process_reminder_keeps [OF continue(1) [unfolded st1] Cons.prems(2) no(1)]
    have "r \<in> set (rows db1)" .
    from Cons.IH [OF continue(2) [unfolded st1] this no(2)] show ?thesis .
  qed
qed

lemma for_due_removes:
  assumes "for_due_reminders client rs (db, w) = (err, trace, db', w')"
    "Delete_reminder rid \<in> set trace" "sqlite_int rid"
  shows "rid \<notin> col_id ` set (rows db')"
  using assms
proof (induction rs arbitrary: db w err trace db' w')
  case Nil
  then show ?case by simp
next
  case (Cons row rs)
  from Cons.prems(1) show ?case
  proof (cases rule: for_due_Cons)
    case (stop e)
    from process_reminder_removes [OF stop(1) Cons.prems(2,3)] show ?thesis .
  next
    case (continue evs st1 trace2)
    obtain db1 w1 where st1: "st1 = (db1, w1)" by (cases st1)
    from Cons.prems(2) continue(3)
    consider "Delete_reminder rid \<in> set evs" | "Delete_reminder rid \<in> set trace2" by auto
    then show ?thesis
    proof cases
      case 1
      from process_reminder_removes [OF continue(1) [unfolded st1] 1 Cons.prems(3)]
      have "rid \<notin> col_id ` set (rows db1)" .
      with for_due_subset [OF continue(2) [unfolded st1]] show ?thesis by auto
    next
      case 2
      from Cons.IH [OF continue(2) [unfolded st1] 2 Cons.prems(3)] show ?thesis .
    qed
  qed
qed

text \<open>
  What the outcome of an attempt means for the row. Rowids being distinct, the events of
  two due rows never concern the same rowid.
\<close>

lemma for_due_sent:
  assumes "for_due_reminders client rs st = (err, trace, st')" "Send r Send_ok \<in> set trace"
  shows "Delete_reminder (fst r) \<in> set trace"
  using assms
proof (induction rs arbitrary: st err trace st')
  case Nil
  then show ?case by simp
next
  case (Cons row rs)
  from Cons.prems(1) show ?case
  proof (cases rule: for_due_Cons)
    case (stop e)
    from process_reminder_about [OF stop(1)] Cons.prems(2) have "r = row" by auto
    with process_reminder_sent [OF stop(1) Cons.prems(2)] show ?thesis by simp
  next
    case (continue evs st1 trace2)
    from Cons.prems(2) continue(3)
    consider "Send r Send_ok \<in> set evs" | "Send r Send_ok \<in> set trace2" by auto
    then show ?thesis
    proof cases
      case 1
      from process_reminder_about [OF continue(1)] 1 have "r = row" by auto
      with process_reminder_sent [OF continue(1) 1] continue(3) show ?thesis by simp
    next
      case 2
      from Cons.IH [OF continue(2) 2] continue(3) show ?thesis by simp
    qed
  qed
qed

lemma for_due_transient:
  assumes "for_due_reminders client rs st = (err, trace, st')" "distinct (map fst rs)"
    "transient r trace"
  shows "Delete_reminder (fst r) \<notin> set trace"
  using assms
proof (induction rs arbitrary: st err trace st')
  case Nil
  then show ?case by simp
next
  case (Cons row rs)
  from Cons.prems(2) have d: "fst row \<notin> fst ` set rs" "distinct (map fst rs)" by auto
  from Cons.prems(1) show ?case
  proof (cases rule: for_due_Cons)
    case (stop e)
    from Cons.prems(3) process_reminder_transient [OF stop(1)] show ?thesis
      by (auto simp: transient_def)
  next
    case (continue evs st1 trace2)
    from Cons.prems(3) continue(3)
    consider "transient r evs" | "transient r trace2" by (auto simp: transient_def)
    then show ?thesis
    proof cases
      case 1
      with process_reminder_about [OF continue(1)] have "r = row" by (auto simp: transient_def)
      from 1 process_reminder_transient [OF continue(1)]
      have "Delete_reminder (fst r) \<notin> set evs" by (auto simp: transient_def)
      moreover from for_due_delete_row [OF continue(2)] d(1) \<open>r = row\<close>
      have "Delete_reminder (fst r) \<notin> set trace2" by auto
      ultimately show ?thesis using continue(3) by simp
    next
      case 2
      from Cons.IH [OF continue(2) d(2) 2] have "Delete_reminder (fst r) \<notin> set trace2" .
      moreover from 2 for_due_fetch_row [OF continue(2)] for_due_send_row [OF continue(2)]
      have "r \<in> set rs" unfolding transient_def by blast
      with d(1) have "fst r \<noteq> fst row" by (metis imageI)
      with process_reminder_about [OF continue(1)]
      have "Delete_reminder (fst r) \<notin> set evs" by auto
      ultimately show ?thesis using continue(3) by simp
    qed
  qed
qed

lemma for_due_not_found:
  assumes "for_due_reminders client rs st = (err, trace, st')" "distinct (map fst rs)"
    "recipient_not_found r trace"
  shows "Delete_reminder (fst r) \<in> set trace \<and> Send r Send_ok \<notin> set trace"
  using assms
proof (induction rs arbitrary: st err trace st')
  case Nil
  then show ?case by (simp add: recipient_not_found_def)
next
  case (Cons row rs)
  from Cons.prems(2) have d: "fst row \<notin> fst ` set rs" "distinct (map fst rs)" by auto
  from Cons.prems(1) show ?case
  proof (cases rule: for_due_Cons)
    case (stop e)
    from Cons.prems(3) process_reminder_about [OF stop(1)] have "r = row"
      by (auto simp: recipient_not_found_def)
    with Cons.prems(3) process_reminder_not_found [OF stop(1), of r r] show ?thesis
      by (auto simp: recipient_not_found_def)
  next
    case (continue evs st1 trace2)
    from Cons.prems(3) continue(3)
    consider "recipient_not_found r evs" | "recipient_not_found r trace2"
      by (auto simp: recipient_not_found_def)
    then show ?thesis
    proof cases
      case 1
      with process_reminder_about [OF continue(1)] have "r = row"
        by (auto simp: recipient_not_found_def)
      from 1 process_reminder_not_found [OF continue(1), of r r] \<open>r = row\<close>
      have "Delete_reminder (fst r) \<in> set evs" "Send r Send_ok \<notin> set evs"
        by (auto simp: recipient_not_found_def)
      moreover from for_due_send_row [OF continue(2)] d(1) \<open>r = row\<close>
      have "Send r Send_ok \<notin> set trace2" by (metis imageI)
      ultimately show ?thesis using continue(3) by simp
    next
      case 2
      from Cons.IH [OF continue(2) d(2) 2]
      have "Delete_reminder (fst r) \<in> set trace2" "Send r Send_ok \<notin> set trace2" by auto
      moreover from 2 for_due_fetch_row [OF continue(2)] for_due_send_row [OF continue(2)]
      have "r \<in> set rs" unfolding recipient_not_found_def by blast
      with d(1) have "r \<noteq> row" by (metis imageI)
      with process_reminder_about [OF continue(1)]
      have "Send r Send_ok \<notin> set evs" by auto
      ultimately show ?thesis using continue(3) by simp
    qed
  qed
qed


subsection \<open>Rowids are not given out twice\<close>

text \<open>
  \<open>retired\<close> and \<open>wf_db\<close> are kept by \<open>add_reminder\<close> and by a tick, hence by every
  history; the table the program starts from is well-formed.
\<close>

lemma fold_max_bounded: "\<forall>x \<in> set xs. x \<le> a \<Longrightarrow> fold max xs (a::int) = a"
  by (induction xs) (simp_all add: max_absorb2)

lemma next_rowid_seq:
  "list_all (\<lambda>r. col_id r \<le> seq db) (rows db) \<Longrightarrow> next_rowid db = seq db + 1"
  by (simp add: next_rowid_def fold_max_bounded list_all_iff)

lemma add_reminder_cases:
  "snd (add_reminder mk uid n url s lead db) = db
   \<or> (\<exists>t. snd (add_reminder mk uid n url s lead db) = insert_reminder uid n url t db
          \<and> sqlite_int (next_rowid db))"
  by (auto simp: add_reminder_def split: sum.splits option.splits)

lemma insert_reminder_retired:
  assumes "retired rid db"
  shows "retired rid (insert_reminder uid n url t db)"
proof -
  from assms have b: "list_all (\<lambda>r. col_id r \<le> seq db) (rows db)" by (simp add: retired_def)
  then have n: "next_rowid db = seq db + 1" by (rule next_rowid_seq)
  from b have "list_all (\<lambda>r. col_id r \<le> seq db + 1) (rows db)"
    by (auto simp: list_all_iff)
  with assms n show ?thesis
    by (auto simp: retired_def insert_reminder_def Let_def)
qed

lemma add_reminder_retired:
  "retired rid db \<Longrightarrow> retired rid (snd (add_reminder mk uid n url s lead db))"
  using add_reminder_cases [of mk uid n url s lead db] insert_reminder_retired by metis

lemma check_reminders_retired:
  assumes "retired rid db"
  shows "retired rid (fst (snd (snd (check_reminders client now (db, w)))))"
proof -
  obtain err trace db' w' where c: "check_reminders client now (db, w) = (err, trace, db', w')"
    by (cases "check_reminders client now (db, w)") auto
  from for_due_subset [OF c [unfolded check_reminders_def]]
  have "set (rows db') \<subseteq> set (rows db)" "seq db' = seq db" by simp_all
  with assms have "retired rid db'" by (auto simp: retired_def list_all_iff)
  with c show ?thesis by simp
qed

lemma run_retired:
  "retired rid (fst st) \<Longrightarrow> retired rid (fst (run mk client calls st))"
proof (induction calls arbitrary: st)
  case Nil
  then show ?case by simp
next
  case (Cons c calls)
  show ?case
  proof (cases c)
    case (Add_reminder uid n url s lead)
    from Cons.prems have "retired rid (snd (add_reminder mk uid n url s lead (fst st)))"
      by (rule add_reminder_retired)
    then have "retired rid (fst (snd (add_reminder mk uid n url s lead (fst st)), snd st))"
      by simp
    from Cons.IH [OF this] Add_reminder show ?thesis by simp
  next
    case (Check_reminders now)
    from Cons.prems
    have "retired rid (fst (snd (snd (check_reminders client now (fst st, snd st)))))"
      by (rule check_reminders_retired)
    then have "retired rid (fst (snd (snd (check_reminders client now st))))" by simp
    from Cons.IH [OF this] Check_reminders show ?thesis by simp
  qed
qed

lemma insert_reminder_wf:
  assumes "wf_db db" "sqlite_int (next_rowid db)"
  shows "wf_db (insert_reminder uid n url t db)"
proof -
  from assms(1) have b: "list_all (\<lambda>r. col_id r \<le> seq db) (rows db)"
    by (auto simp: wf_db_def list_all_iff)
  then have n: "next_rowid db = seq db + 1" by (rule next_rowid_seq)
  from b have "seq db + 1 \<notin> col_id ` set (rows db)" by (auto simp: list_all_iff)
  with assms n show ?thesis
    by (auto simp: wf_db_def insert_reminder_def Let_def list_all_iff)
qed

lemma add_reminder_wf: "wf_db db \<Longrightarrow> wf_db (snd (add_reminder mk uid n url s lead db))"
  using add_reminder_cases [of mk uid n url s lead db] insert_reminder_wf by metis

lemma check_reminders_wf:
  assumes "wf_db db"
  shows "wf_db (fst (snd (snd (check_reminders client now (db, w)))))"
proof -
  obtain err trace db' w' where c: "check_reminders client now (db, w) = (err, trace, db', w')"
    by (cases "check_reminders client now (db, w)") auto
  from for_due_subset [OF c [unfolded check_reminders_def]] assms
  have "wf_db db'" by (auto simp: wf_db_def list_all_iff)
  with c show ?thesis by simp
qed

lemma wf_db_initial: "wf_db (initialize_db None)"
  by (simp add: wf_db_def initialize_db_def sqlite_int_def)

lemma due_row_in_db:
  assumes "row \<in> set (get_due_reminders now db)"
  obtains r where "r \<in> set (rows db)" "due_row_of r = row" "col_reminder_time r \<le> now"
  using assms by (auto simp: get_due_alt)

lemma wf_db_id:
  "wf_db db \<Longrightarrow> r \<in> set (rows db) \<Longrightarrow> sqlite_int (col_id r) \<and> col_id r \<le> seq db"
  by (auto simp: wf_db_def list_all_iff sqlite_int_def)

lemma run_wf: "wf_db (fst st) \<Longrightarrow> wf_db (fst (run mk client calls st))"
proof (induction calls arbitrary: st)
  case Nil
  then show ?case by simp
next
  case (Cons c calls)
  show ?case
  proof (cases c)
    case (Add_reminder uid n url s lead)
    from Cons.prems have "wf_db (snd (add_reminder mk uid n url s lead (fst st)))"
      by (rule add_reminder_wf)
    then have "wf_db (fst (snd (add_reminder mk uid n url s lead (fst st)), snd st))"
      by simp
    from Cons.IH [OF this] Add_reminder show ?thesis by simp
  next
    case (Check_reminders now)
    from Cons.prems
    have "wf_db (fst (snd (snd (check_reminders client now (fst st, snd st)))))"
      by (rule check_reminders_wf)
    then have "wf_db (fst (snd (snd (check_reminders client now st))))" by simp
    from Cons.IH [OF this] Check_reminders show ?thesis by simp
  qed
qed

lemma reachable_wf: "wf_db (fst (run mk client calls (initialize_db None, w)))"
  by (rule run_wf) (simp add: wf_db_initial)

lemma add_reminder_keeps:
  "r \<in> set (rows db) \<Longrightarrow> r \<in> set (rows (snd (add_reminder mk uid n url s lead db)))"
  using add_reminder_cases [of mk uid n url s lead db]
  by (auto simp: rows_insert_reminder)

lemma run_registrations_keep:
  "list_all is_registration calls \<Longrightarrow> r \<in> set (rows (fst st)) \<Longrightarrow>
   r \<in> set (rows (fst (run mk client calls st)))"
proof (induction calls arbitrary: st)
  case Nil
  then show ?case by simp
next
  case (Cons c calls)
  from Cons.prems(1) obtain uid n url s lead where c: "c = Add_reminder uid n url s lead"
    by (cases c) simp_all
  from Cons.prems(2) have "r \<in> set (rows (snd (add_reminder mk uid n url s lead (fst st))))"
    by (rule add_reminder_keeps)
  then have "r \<in> set (rows (fst (snd (add_reminder mk uid n url s lead (fst st)), snd st)))"
    by simp
  with Cons.IH [of "(snd (add_reminder mk uid n url s lead (fst st)), snd st)"] Cons.prems(1) c
  show ?case by simp
qed

text \<open>
  Claim C3. In a tick on a well-formed table: a due row whose attempt failed with an
  exception other than \<open>NotFound\<close> is still in the table afterwards and is due again at
  every time from \<open>now\<close> on, also after any calls of \<open>add_reminder\<close>; a due row whose message was sent is removed, and its rowid is
  in the table in no later state, whatever calls of \<open>add_reminder\<close> and ticks follow.
\<close>
theorem transient_failure_retried_sent_retired:
  assumes wf: "wf_db db"
    and tick: "check_reminders client now (db, w) = (err, trace, db', w')"
  shows "(transient row trace \<longrightarrow>
            fst row \<in> col_id ` set (rows db')
            \<and> (\<forall>now' \<ge> now. row \<in> set (get_due_reminders now' db'))
            \<and> (\<forall>now' \<ge> now. \<forall>mktime client' calls. list_all is_registration calls \<longrightarrow>
                  row \<in> set (get_due_reminders now'
                               (fst (run mktime client' calls (db', w'))))))
       \<and> (Send row Send_ok \<in> set trace \<longrightarrow>
            fst row \<notin> col_id ` set (rows db')
            \<and> (\<forall>mktime client' calls.
                  fst row \<notin> col_id ` set (rows (fst (run mktime client' calls (db', w'))))))"
proof (intro conjI impI)
  note loop = tick [unfolded check_reminders_def fst_conv]
  {
    assume t: "transient row trace"
    with for_due_fetch_row [OF loop] for_due_send_row [OF loop]
    have "row \<in> set (get_due_reminders now db)" unfolding transient_def by blast
    then obtain r where r: "r \<in> set (rows db)" "due_row_of r = row" "col_reminder_time r \<le> now"
      by (rule due_row_in_db)
    from for_due_transient [OF loop distinct_get_due_ids [OF wf] t] r(2)
    have "Delete_reminder (col_id r) \<notin> set trace" by (simp add: fst_due_row_of [symmetric])
    from for_due_keeps [OF loop r(1) this] have in': "r \<in> set (rows db')" .
    with r(2) show "fst row \<in> col_id ` set (rows db')"
      by (metis fst_due_row_of imageI)
    show "\<forall>now' \<ge> now. row \<in> set (get_due_reminders now' db')"
    proof (intro allI impI)
      fix now' :: int assume "now \<le> now'"
      with r(3) have "col_reminder_time r \<le> now'" by simp
      with in' r(2) show "row \<in> set (get_due_reminders now' db')"
        by (auto simp: get_due_alt)
    qed
    show "\<forall>now' \<ge> now. \<forall>mktime client' calls. list_all is_registration calls \<longrightarrow>
            row \<in> set (get_due_reminders now' (fst (run mktime client' calls (db', w'))))"
    proof (intro allI impI)
      fix now' :: int and mk :: local_zone and client' :: "'a discord" and calls
      assume "now \<le> now'" and regs: "list_all is_registration calls"
      with r(3) have "col_reminder_time r \<le> now'" by simp
      moreover from in' have "r \<in> set (rows (fst (db', w')))" by simp
      with regs have "r \<in> set (rows (fst (run mk client' calls (db', w'))))"
        by (rule run_registrations_keep)
      ultimately show "row \<in> set (get_due_reminders now' (fst (run mk client' calls (db', w'))))"
        using r(2) by (auto simp: get_due_alt)
    qed
  }
  {
    assume s: "Send row Send_ok \<in> set trace"
    from for_due_send_row [OF loop s] obtain r where r: "r \<in> set (rows db)" "due_row_of r = row"
      by (rule due_row_in_db)
    from r(2) have id: "fst row = col_id r" by (metis fst_due_row_of)
    from wf_db_id [OF wf r(1)] id have fits: "sqlite_int (fst row)" "fst row \<le> seq db" by simp_all
    from for_due_removes [OF loop for_due_sent [OF loop s] fits(1)]
    show gone: "fst row \<notin> col_id ` set (rows db')" .
    from for_due_subset [OF loop] have sub: "set (rows db') \<subseteq> set (rows db)" "seq db' = seq db"
      by simp_all
    with wf have "list_all (\<lambda>r. col_id r \<le> seq db') (rows db')"
      by (auto simp: wf_db_def list_all_iff)
    with gone fits(2) sub(2) have "retired (fst row) (fst (db', w'))" by (simp add: retired_def)
    then have "\<And>mk client' calls. retired (fst row) (fst (run mk client' calls (db', w')))"
      by (rule run_retired)
    then show "\<forall>mktime client' calls.
                  fst row \<notin> col_id ` set (rows (fst (run mktime client' calls (db', w'))))"
      by (simp add: retired_def)
  }
qed

text \<open>
  Claim C4. In a tick on a well-formed table, a due row whose attempt raised \<open>NotFound\<close>
  is deleted, although no message was sent for it.
\<close>
theorem recipient_not_found_retired:
  assumes wf: "wf_db db"
    and tick: "check_reminders client now (db, w) = (err, trace, db', w')"
    and nf: "recipient_not_found row trace"
  shows "Delete_reminder (fst row) \<in> set trace
       \<and> fst row \<notin> col_id ` set (rows db')
       \<and> Send row Send_ok \<notin> set trace"
proof -
  note loop = tick [unfolded check_reminders_def fst_conv]
  from nf for_due_fetch_row [OF loop] for_due_send_row [OF loop]
  have "row \<in> set (get_due_reminders now db)" unfolding recipient_not_found_def by blast
  then obtain r where r: "r \<in> set (rows db)" "due_row_of r = row"
    by (rule due_row_in_db)
  from r(2) have id: "fst row = col_id r" by (metis fst_due_row_of)
  from wf_db_id [OF wf r(1)] id have fits: "sqlite_int (fst row)" by simp
  from for_due_not_found [OF loop distinct_get_due_ids [OF wf] nf]
  have d: "Delete_reminder (fst row) \<in> set trace" "Send row Send_ok \<notin> set trace" by simp_all
  from for_due_removes [OF loop d(1) fits] d show ?thesis by simp
qed


subsection \<open>A tick on the example table\<close>

lemma example_tick:
  "check_reminders example_client 1000 (loop_db, 0) = (None, loop_trace, loop_db_after, 4)"
  by (simp add: check_reminders_def get_due_reminders_def due_row_of_def loop_db_def example_client_def
      loop_trace_def loop_db_after_def delete_in_try_def not_found_handler_def
      delete_reminder_def sqlite_int_def Let_def)

lemma wf_loop_db: "wf_db loop_db"
  by (simp add: wf_db_def loop_db_def sqlite_int_def)

lemma example_later:
  "map col_id (rows (fst (run zone_utc example_client
      [Add_reminder 7 ''Round A'' ''https://x/41'' ''2030-01-01T00:00:00Z'' 15,
       Check_reminders 1060] (loop_db_after, 4)))) = [3, 4, 5]"
  by code_simp

theorem transient_failure_retried_sent_retired_witness:
  "wf_db loop_db
   \<and> check_reminders example_client 1000 (loop_db, 0) = (None, loop_trace, loop_db_after, 4)
   \<and> transient (3, 9, ''Round A'', ''https://x/41'') loop_trace
   \<and> 3 \<in> col_id ` set (rows loop_db_after)
   \<and> (3, 9, ''Round A'', ''https://x/41'') \<in> set (get_due_reminders 1060 loop_db_after)
   \<and> Send (1, 7, ''Round A'', ''https://x/41'') Send_ok \<in> set loop_trace
   \<and> 1 \<notin> col_id ` set (rows loop_db_after)
   \<and> 1 \<notin> col_id ` set (rows (fst (run zone_utc example_client
      [Add_reminder 7 ''Round A'' ''https://x/41'' ''2030-01-01T00:00:00Z'' 15,
       Check_reminders 1060] (loop_db_after, 4))))"
proof -
  have t: "transient (3, 9, ''Round A'', ''https://x/41'') loop_trace"
    by (simp add: transient_def loop_trace_def)
  have s: "Send (1, 7, ''Round A'', ''https://x/41'') Send_ok \<in> set loop_trace"
    by (simp add: loop_trace_def)
  from transient_failure_retried_sent_retired
    [OF wf_loop_db example_tick, of "(3, 9, ''Round A'', ''https://x/41'')"] t
  have a: "fst (3::int, 9::int, ''Round A'', ''https://x/41'') \<in> col_id ` set (rows loop_db_after)"
    "(3, 9, ''Round A'', ''https://x/41'') \<in> set (get_due_reminders 1060 loop_db_after)"
    by simp_all
  from transient_failure_retried_sent_retired
    [OF wf_loop_db example_tick, of "(1, 7, ''Round A'', ''https://x/41'')"] s
  have b: "fst (1::int, 7::int, ''Round A'', ''https://x/41'') \<notin> col_id ` set (rows loop_db_after)"
    "fst (1::int, 7::int, ''Round A'', ''https://x/41'')
      \<notin> col_id ` set (rows (fst (run zone_utc example_client
      [Add_reminder 7 ''Round A'' ''https://x/41'' ''2030-01-01T00:00:00Z'' 15,
       Check_reminders 1060] (loop_db_after, 4))))"
    by blast+
  from a b t s wf_loop_db example_tick show ?thesis by simp
qed

theorem recipient_not_found_retired_witness:
  "wf_db loop_db
   \<and> check_reminders example_client 1000 (loop_db, 0) = (None, loop_trace, loop_db_after, 4)
   \<and> recipient_not_found (2, 8, ''Round A'', ''https://x/41'') loop_trace
   \<and> Delete_reminder 2 \<in> set loop_trace
   \<and> 2 \<notin> col_id ` set (rows loop_db_after)
   \<and> Send (2, 8, ''Round A'', ''https://x/41'') Send_ok \<notin> set loop_trace"
proof -
  have n: "recipient_not_found (2, 8, ''Round A'', ''https://x/41'') loop_trace"
    by (simp add: recipient_not_found_def loop_trace_def)
  from recipient_not_found_retired [OF wf_loop_db example_tick n] n wf_loop_db example_tick
  show ?thesis by simp
qed



subsection \<open>Time resolution\<close>

text \<open>
  The parser is evaluated on a timestamp written from its fields: first digits, then the
  date, the time and the offset, then \<open>fromisoformat\<close> as a whole.
\<close>

lemma of_char_digit_char: "(of_char (digit_char n) :: nat) = 48 + nat (n mod 10)"
proof -
  have "0 \<le> n mod 10" "n mod 10 < 10" by simp_all
  then have "(48 + n mod 10) mod 256 = 48 + n mod 10" by simp
  then have "(of_char (digit_char n) :: int) = 48 + n mod 10"
    by (simp add: digit_char_def)
  then show ?thesis
    by (metis \<open>0 \<le> n mod 10\<close> nat_int nat_add_distrib nat_numeral of_nat_of_char
        zero_le_numeral)
qed

lemma is_digit_digit_char [simp]: "is_digit (digit_char n)"
  using of_char_digit_char [of n] by (simp add: is_digit_def) 

lemma digit_val_digit_char [simp]: "digit_val (digit_char n) = n mod 10"
  using of_char_digit_char [of n] by (simp add: digit_val_def)

lemma digit_char_neq:
  "\<not> is_digit c \<Longrightarrow> digit_char n \<noteq> c" "\<not> is_digit c \<Longrightarrow> c \<noteq> digit_char n"
  using is_digit_digit_char by metis+

lemma not_digit [simp]:
  "\<not> is_digit (CHR ''-'')" "\<not> is_digit (CHR ''W'')" "\<not> is_digit (CHR '':'')"
  "\<not> is_digit (CHR ''.'')" "\<not> is_digit (CHR '','')" "\<not> is_digit (CHR ''Z'')"
  "\<not> is_digit (CHR ''+'')" "\<not> is_digit (CHR 0x00)" "\<not> is_digit (CHR ''T'')"
  by (simp_all add: is_digit_def)

lemma byte_at_Nil [simp]: "byte_at [] i = CHR 0x00"
  by (simp add: byte_at_def)

lemma byte_at_Cons_0 [simp]: "byte_at (x # xs) 0 = x"
  by (simp add: byte_at_def)

lemma byte_at_Cons_Suc [simp]: "byte_at (x # xs) (Suc i) = byte_at xs i"
  by (simp add: byte_at_def)

lemma byte_at_Cons_numeral [simp]:
  "byte_at (x # xs) (numeral k) = byte_at xs (pred_numeral k)"
  by (simp add: byte_at_def numeral_eq_Suc)

lemma parse_digits_numeral:
  "parse_digits s p var (numeral k) =
     (if is_digit (byte_at s p)
      then parse_digits s (Suc p) (var * 10 + digit_val (byte_at s p)) (pred_numeral k)
      else None)"
  by (simp add: numeral_eq_Suc)

lemma two_digit_value: "0 \<le> n \<Longrightarrow> n \<le> 99 \<Longrightarrow> n div 10 mod 10 * 10 + n mod 10 = (n::int)"
  by simp

lemma horner4:
  "n = 10 * q1 + d \<Longrightarrow> q1 = 10 * q2 + c \<Longrightarrow> q2 = 10 * a + b \<Longrightarrow>
   ((a * 10 + b) * 10 + c) * 10 + d = (n::int)"
  by simp

lemma four_digit_value:
  assumes "0 \<le> n" "n \<le> 9999"
  shows "((n div 1000 mod 10 * 10 + n div 100 mod 10) * 10 + n div 10 mod 10) * 10 + n mod 10
         = (n::int)"
proof -
  have h: "n div 10 div 10 = n div 100" "n div 100 div 10 = n div 1000"
    using zdiv_zmult2_eq [of 10 n 10] zdiv_zmult2_eq [of 10 n 100] by simp_all
  have a: "n = 10 * (n div 10) + n mod 10" by simp
  have "n div 10 = 10 * (n div 10 div 10) + n div 10 mod 10" by simp
  then have b: "n div 10 = 10 * (n div 100) + n div 10 mod 10" by (simp only: h)
  have "n div 100 = 10 * (n div 100 div 10) + n div 100 mod 10" by simp
  then have c: "n div 100 = 10 * (n div 1000) + n div 100 mod 10" by (simp only: h)
  from assms have e: "n div 1000 mod 10 = n div 1000" by simp
  from horner4 [OF a b c] show ?thesis by (simp only: e)
qed
lemma parse_two_digits:
  assumes "byte_at s p = digit_char (n div 10)" "byte_at s (Suc p) = digit_char n"
    "0 \<le> n" "n \<le> 99"
  shows "parse_digits s p 0 2 = Some (n, Suc (Suc p))"
  using assms by (simp add: parse_digits_numeral two_digit_value)

lemma parse_four_digits:
  assumes "byte_at s p = digit_char (n div 1000)" "byte_at s (Suc p) = digit_char (n div 100)"
    "byte_at s (Suc (Suc p)) = digit_char (n div 10)"
    "byte_at s (Suc (Suc (Suc p))) = digit_char n" "0 \<le> n" "n \<le> 9999"
  shows "parse_digits s p 0 4 = Some (n, Suc (Suc (Suc (Suc p))))"
proof -
  have "parse_digits s p 0 4
        = Some (((n div 1000 mod 10 * 10 + n div 100 mod 10) * 10 + n div 10 mod 10) * 10
                 + n mod 10, Suc (Suc (Suc (Suc p))))"
    using assms(1-4) by (simp add: numeral_eq_Suc)
  with assms(5,6) show ?thesis by (simp only: four_digit_value)
qed


lemma date_time_offset_explicit:
  "date_time_offset y m d rest =
     digit_char (y div 1000) # digit_char (y div 100) # digit_char (y div 10) # digit_char y
     # CHR ''-'' # digit_char (m div 10) # digit_char m
     # CHR ''-'' # digit_char (d div 10) # digit_char d # CHR ''T'' # rest"
  by (simp add: date_time_offset_def four_digits_def two_digits_def)

lemma digit_char_not [simp]:
  "digit_char n \<noteq> CHR ''-''" "digit_char n \<noteq> CHR ''W''" "digit_char n \<noteq> CHR '':''"
  "digit_char n \<noteq> CHR ''.''" "digit_char n \<noteq> CHR '',''" "digit_char n \<noteq> CHR ''Z''"
  "digit_char n \<noteq> CHR ''+''" "digit_char n \<noteq> CHR 0x00" "digit_char n \<noteq> CHR ''T''"
  by (rule digit_char_neq, simp)+

lemma find_separator_date_time:
  assumes "rest \<noteq> []"
  shows "find_isoformat_datetime_separator (date_time_offset y m d rest) = Some 10"
proof -
  from assms have "length (date_time_offset y m d rest) \<noteq> 7"
    by (simp add: date_time_offset_explicit)
  then show ?thesis
    by (simp add: find_isoformat_datetime_separator_def Let_def)
       (simp add: date_time_offset_explicit)
qed

lemma parse_date_date_time:
  assumes "0 \<le> y" "y \<le> 9999" "0 \<le> m" "m \<le> 99" "0 \<le> d" "d \<le> 99"
  shows "parse_isoformat_date (date_time_offset y m d rest) 10 = Some (y, m, d)"
proof -
  let ?s = "date_time_offset y m d rest"
  have y: "parse_digits ?s 0 0 4 = Some (y, 4)"
    using parse_four_digits [of ?s 0 y] assms(1,2) by (simp add: date_time_offset_explicit)
  have m: "parse_digits ?s 5 0 2 = Some (m, 7)"
    using parse_two_digits [of ?s 5 m] assms(3,4) by (simp add: date_time_offset_explicit)
  have d: "parse_digits ?s 8 0 2 = Some (d, 10)"
    using parse_two_digits [of ?s 8 d] assms(5,6) by (simp add: date_time_offset_explicit)
  have b: "byte_at ?s 4 = CHR ''-''" "byte_at ?s 5 \<noteq> CHR ''W''" "byte_at ?s 7 = CHR ''-''"
    by (simp_all add: date_time_offset_explicit)
  show ?thesis
    unfolding parse_isoformat_date_def by (simp add: y m d b Let_def)
qed

lemma rest_date_time:
  "drop (10 + utf8_width (byte_at (date_time_offset y m d rest) 10)) (date_time_offset y m d rest)
   = rest"
proof -
  have "byte_at (date_time_offset y m d rest) 10 = CHR ''T''"
    by (simp add: date_time_offset_explicit)
  then show ?thesis
    by (simp add: utf8_width_def date_time_offset_explicit)
qed


lemma time_offset_explicit:
  "time_offset hh mm ss west oh om =
     digit_char (hh div 10) # digit_char hh # CHR '':'' # digit_char (mm div 10) # digit_char mm
     # CHR '':'' # digit_char (ss div 10) # digit_char ss # sign_char west
     # digit_char (oh div 10) # digit_char oh # CHR '':'' # digit_char (om div 10)
     # [digit_char om]"
  by (simp add: time_offset_def two_digits_def)

lemma sign_char_facts [simp]:
  "is_tz_char (sign_char west)" "sign_char west \<noteq> CHR ''Z''" "sign_char west \<noteq> CHR 0x00"
  "sign_char west = CHR ''-'' \<longleftrightarrow> west"
  by (simp_all add: sign_char_def is_tz_char_def)

lemma not_tz_char [simp]: "\<not> is_tz_char (digit_char n)" "\<not> is_tz_char (CHR '':'')"
  by (simp_all add: is_tz_char_def)

lemma find_tzinfo_pos_time_offset: "find_tzinfo_pos (time_offset hh mm ss west oh om) = 8"
  by (simp add: find_tzinfo_pos_def time_offset_explicit)

lemma parse_hh_mm_ss_ff_unroll:
  "parse_hh_mm_ss_ff tstr p p_end
   = hh_mm_ss_loop tstr p_end (Suc (Suc (Suc 0))) 0 p True (0, 0, 0)"
  by (simp add: parse_hh_mm_ss_ff_def numeral_3_eq_3)

lemma parse_time_fields:
  assumes "0 \<le> hh" "hh \<le> 99" "0 \<le> mm" "mm \<le> 99" "0 \<le> ss" "ss \<le> 99"
  shows "parse_hh_mm_ss_ff (time_offset hh mm ss west oh om) 0 8 = Some ((hh, mm, ss, 0), True)"
proof -
  let ?t = "time_offset hh mm ss west oh om"
  have h: "parse_digits ?t 0 0 2 = Some (hh, 2)"
    using parse_two_digits [of ?t 0 hh] assms(1,2) by (simp add: time_offset_explicit)
  have m: "parse_digits ?t 3 0 2 = Some (mm, 5)"
    using parse_two_digits [of ?t 3 mm] assms(3,4) by (simp add: time_offset_explicit)
  have s: "parse_digits ?t 6 0 2 = Some (ss, 8)"
    using parse_two_digits [of ?t 6 ss] assms(5,6) by (simp add: time_offset_explicit)
  have b: "byte_at ?t 2 = CHR '':''" "byte_at ?t 5 = CHR '':''" "byte_at ?t 8 = sign_char west"
    by (simp_all add: time_offset_explicit)
  show ?thesis
    by (simp add: parse_hh_mm_ss_ff_unroll h m s b Let_def)
qed

lemma parse_offset_fields:
  assumes "0 \<le> oh" "oh \<le> 99" "0 \<le> om" "om \<le> 99"
  shows "parse_hh_mm_ss_ff (time_offset hh mm ss west oh om) 9 14 = Some ((oh, om, 0, 0), False)"
proof -
  let ?t = "time_offset hh mm ss west oh om"
  have h: "parse_digits ?t 9 0 2 = Some (oh, 11)"
    using parse_two_digits [of ?t 9 oh] assms(1,2) by (simp add: time_offset_explicit)
  have m: "parse_digits ?t 12 0 2 = Some (om, 14)"
    using parse_two_digits [of ?t 12 om] assms(3,4) by (simp add: time_offset_explicit)
  have b: "byte_at ?t 11 = CHR '':''" "byte_at ?t 14 = CHR 0x00"
    by (simp_all add: time_offset_explicit)
  show ?thesis
    by (simp add: parse_hh_mm_ss_ff_unroll h m b Let_def)
qed

lemma parse_time_offset:
  assumes "0 \<le> hh" "hh \<le> 99" "0 \<le> mm" "mm \<le> 99" "0 \<le> ss" "ss \<le> 99"
    "0 \<le> oh" "oh \<le> 99" "0 \<le> om" "om \<le> 99"
  shows "parse_isoformat_time (time_offset hh mm ss west oh om)
         = Some ((hh, mm, ss, 0), Some (offset_seconds west oh om, 0))"
proof -
  let ?t = "time_offset hh mm ss west oh om"
  have l: "length ?t = 14" by (simp add: time_offset_explicit)
  have b: "byte_at ?t 8 = sign_char west" by (simp add: time_offset_explicit)
  show ?thesis
    unfolding parse_isoformat_time_def
    by (simp add: find_tzinfo_pos_time_offset parse_time_fields [OF assms(1-6)]
        parse_offset_fields [OF assms(7-10)] l b Let_def offset_seconds_def)
qed


text \<open>
  A whole number of seconds below \<open>2 ^ 53\<close> in magnitude, divided as microseconds by one
  million, is a float without rounding error, and \<open>int\<close> gives the number back.
\<close>

lemma round_half_even_exact: "0 < d \<Longrightarrow> round_half_even (k * d) d = k"
  by (simp add: round_half_even_def)

lemma bitlen_mono: "a \<le> b \<Longrightarrow> bitlen a \<le> bitlen b"
  by (simp add: bitlen_def floorlog_mono)

lemma binary64_exponent_nonpos:
  assumes "0 < d" "0 < k" "k < 2 ^ 53"
  shows "binary64_exponent (k * d) d \<le> 0"
proof -
  let ?n = "k * d"
  let ?k = "bitlen ?n - bitlen d"
  from assms have lt: "?n < d * 2 ^ 53" by (simp add: mult.commute)
  then have "bitlen ?n \<le> bitlen (d * 2 ^ 53)" by (simp add: bitlen_mono)
  also from assms(1) bitlen_pow2 [of d 53] have "\<dots> = bitlen d + 53" by simp
  finally have le: "?k \<le> 53" by simp
  show ?thesis
  proof (cases "?k = 53")
    case True
    with lt show ?thesis by (simp add: binary64_exponent_def Let_def)
  next
    case False
    with le have "?k \<le> 52" by simp
    then show ?thesis by (simp add: binary64_exponent_def Let_def)
  qed
qed

lemma int_of_float_round_pos:
  assumes "0 < d" "0 < k" "k < 2 ^ 53"
  shows "int_of_float (binary64_round_pos (k * d) d) = k"
proof -
  define e where "e = binary64_exponent (k * d) d"
  from binary64_exponent_nonpos [OF assms] have e: "e \<le> 0" by (simp add: e_def)
  show ?thesis
  proof (cases "e = 0")
    case True
    with assms(1) show ?thesis
      by (simp add: binary64_round_pos_def e_def [symmetric] int_of_float_def
          round_half_even_exact)
  next
    case False
    with e have neg: "e < 0" by simp
    have "k * d * 2 ^ nat (- e) = (k * 2 ^ nat (- e)) * d" by simp
    then have "round_half_even (k * d * 2 ^ nat (- e)) d = k * 2 ^ nat (- e)"
      using assms(1) round_half_even_exact by metis
    with neg assms(2) show ?thesis
      by (simp add: binary64_round_pos_def e_def [symmetric] int_of_float_def Let_def)
  qed
qed

lemma int_of_float_minus: "int_of_float (- m, e) = - int_of_float (m, e)"
  by (simp add: int_of_float_def)

lemma int_of_float_round_exact:
  assumes "0 < d" "\<bar>k\<bar> < 2 ^ 53"
  shows "int_of_float (binary64_round (k * d) d) = k"
proof -
  consider "k = 0" | "0 < k" | "k < 0" by linarith
  then show ?thesis
  proof cases
    case 1
    then show ?thesis by (simp add: binary64_round_def int_of_float_def)
  next
    case 2
    with assms have "k < 2 ^ 53" by simp
    from int_of_float_round_pos [OF assms(1) 2 this] 2 assms(1) show ?thesis
      by (simp add: binary64_round_def)
  next
    case 3
    with assms have k: "0 < - k" "- k < 2 ^ 53" by simp_all
    from 3 assms(1) have n: "k * d < 0" by (simp add: mult_neg_pos)
    obtain m e where me: "binary64_round_pos (- k * d) d = (m, e)"
      by (cases "binary64_round_pos (- k * d) d")
    from int_of_float_round_pos [OF assms(1) k] me have "int_of_float (m, e) = - k" by simp
    with n me 3 assms(1) show ?thesis
      by (simp add: binary64_round_def int_of_float_minus)
  qed
qed


text \<open>Every instant of the calendar is far below \<open>2 ^ 53\<close> seconds in magnitude.\<close>

lemma month_cases:
  assumes "1 \<le> m" "m \<le> 12"
  obtains "m = 1" | "m = 2" | "m = 3" | "m = 4" | "m = 5" | "m = 6"
    | "m = 7" | "m = 8" | "m = 9" | "m = 10" | "m = 11" | "m = (12::int)"
proof -
  from assms have "m = 1 \<or> m = 2 \<or> m = 3 \<or> m = 4 \<or> m = 5 \<or> m = 6
      \<or> m = 7 \<or> m = 8 \<or> m = 9 \<or> m = 10 \<or> m = 11 \<or> m = 12"
    by arith
  with that show ?thesis by blast
qed

lemma days_in_month_le: "1 \<le> m \<Longrightarrow> m \<le> 12 \<Longrightarrow> days_in_month y m \<le> 31"
  by (erule (1) month_cases) (simp_all add: days_in_month_def DAYS_IN_MONTH_def)

lemma days_before_month_bounds:
  "1 \<le> m \<Longrightarrow> m \<le> 12 \<Longrightarrow> 0 \<le> days_before_month y m \<and> days_before_month y m \<le> 335"
  by (erule (1) month_cases) (simp_all add: days_before_month_def DAYS_BEFORE_MONTH_def)

lemma days_before_year_bounds:
  assumes "1 \<le> y" "y \<le> 9999"
  shows "0 \<le> days_before_year y \<and> days_before_year y \<le> 4000000"
proof -
  define a where "a = (y - 1) div 4"
  define b where "b = (y - 1) div 100"
  define c where "c = (y - 1) div 400"
  from assms have "0 \<le> a" "a \<le> y - 1" "0 \<le> b" "b \<le> a" "0 \<le> c" "c \<le> y - 1"
    by (simp_all add: a_def b_def c_def zdiv_mono2)
  moreover have "days_before_year y = (y - 1) * 365 + a - b + c"
    by (simp add: days_before_year_def Let_def a_def b_def c_def)
  ultimately show ?thesis using assms by simp
qed

lemma utc_instant_bounds:
  assumes "valid_fields y m d hh mm ss"
  shows "- 100000000000 \<le> utc_instant y m d hh mm ss
         \<and> utc_instant y m d hh mm ss \<le> 400000000000"
proof -
  from assms have v: "1 \<le> y" "y \<le> 9999" "1 \<le> m" "m \<le> 12" "1 \<le> d" "d \<le> days_in_month y m"
    "0 \<le> hh" "hh \<le> 23" "0 \<le> mm" "mm \<le> 59" "0 \<le> ss" "ss \<le> 59"
    by (simp_all add: valid_fields_def)
  from days_in_month_le [OF v(3,4), of y] v(6) have d: "d \<le> 31" by (rule order_trans [rotated])
  define n where "n = ymd_to_ord y m d"
  from days_before_year_bounds [OF v(1,2)] days_before_month_bounds [OF v(3,4), of y] v(5) d
  have "0 \<le> n" "n \<le> 4000400" by (simp_all add: n_def ymd_to_ord_def)
  moreover have "utc_instant y m d hh mm ss = (n - 719163) * 86400 + hh * 3600 + mm * 60 + ss"
    by (simp add: utc_instant_def n_def)
  ultimately show ?thesis using v(7-12) by simp
qed

lemma offset_seconds_bounds:
  assumes "0 \<le> oh" "oh \<le> 23" "0 \<le> om" "om \<le> 59"
  shows "- 86400 < offset_seconds west oh om \<and> offset_seconds west oh om < 86400"
  using assms by (simp add: offset_seconds_def)

lemma fromisoformat_offset:
  assumes "valid_fields y m d hh mm ss" "0 \<le> oh" "oh \<le> 23" "0 \<le> om" "om \<le> 59"
  shows "fromisoformat (iso8601_offset y m d hh mm ss west oh om)
         = Some \<lparr>year = y, month = m, day = d, hour = hh, minute = mm, second = ss,
                  microsecond = 0, tzinfo = Some (offset_seconds west oh om * 1000000)\<rparr>"
proof -
  let ?t = "time_offset hh mm ss west oh om"
  let ?s = "date_time_offset y m d ?t"
  from assms(1) have v: "1 \<le> y" "y \<le> 9999" "1 \<le> m" "m \<le> 12" "1 \<le> d" "d \<le> days_in_month y m"
    "0 \<le> hh" "hh \<le> 23" "0 \<le> mm" "mm \<le> 59" "0 \<le> ss" "ss \<le> 59"
    by (simp_all add: valid_fields_def)
  from days_in_month_le [OF v(3,4), of y] v(6) have d: "d \<le> 31" by (rule order_trans [rotated])
  have t: "?t \<noteq> []" by (simp add: time_offset_explicit)
  have len: "length ?s = 25" by (simp add: date_time_offset_explicit time_offset_explicit)
  have sep: "find_isoformat_datetime_separator ?s = Some 10"
    using t by (rule find_separator_date_time)
  have date: "parse_isoformat_date ?s 10 = Some (y, m, d)"
    using v(1-5) d by (intro parse_date_date_time) simp_all
  have time: "parse_isoformat_time ?t = Some ((hh, mm, ss, 0), Some (offset_seconds west oh om, 0))"
    using v(7-12) assms(2-5) by (intro parse_time_offset) simp_all
  from offset_seconds_bounds [OF assms(2-5)]
  have tz: "tzinfo_from_isoformat_results (Some (offset_seconds west oh om, 0))
            = Some (Some (offset_seconds west oh om * 1000000))"
    by (simp add: tzinfo_from_isoformat_results_def)
  have new: "new_datetime (y, m, d) (hh, mm, ss, 0) tz
        = Some \<lparr>year = y, month = m, day = d, hour = hh, minute = mm, second = ss,
                 microsecond = 0, tzinfo = tz\<rparr>" for tz
    using v by (simp add: new_datetime_def)
  show ?thesis
    unfolding iso8601_offset_def fromisoformat_def
    by (simp add: len sep date rest_date_time time tz new)
qed

lemma start_time_unix_aware:
  assumes "fromisoformat (str_replace (CHR ''Z'') ''+00:00'' s) = Some dt"
    "tzinfo dt = Some off"
  shows "start_time_unix mk s
         = Inr (int_of_float (binary64_round
                  (seconds_since_epoch dt * 1000000 + microsecond dt - off) 1000000))"
  using assms by (simp add: start_time_unix_def timestamp_def)


lemma str_replace_Cons:
  "str_replace old new (c # s) = (if c = old then new else [c]) @ str_replace old new s"
  by (simp add: str_replace_def)

lemma str_replace_Nil: "str_replace old new [] = []"
  by (simp add: str_replace_def)

lemma sign_char_not_Z: "sign_char west \<noteq> CHR ''Z''"
  by simp

lemma two_digits_zero: "two_digits 0 = ''00''"
  by code_simp

lemma replace_offset:
  "str_replace (CHR ''Z'') ''+00:00'' (iso8601_offset y m d hh mm ss west oh om)
   = iso8601_offset y m d hh mm ss west oh om"
  by (simp add: iso8601_offset_def date_time_offset_explicit time_offset_explicit
      str_replace_Cons str_replace_Nil)

lemma replace_utc:
  "str_replace (CHR ''Z'') ''+00:00'' (iso8601_utc y m d hh mm ss)
   = iso8601_offset y m d hh mm ss False 0 0"
proof -
  have z: "digit_char 0 = CHR ''0''" by code_simp
  show ?thesis
    by (simp add: iso8601_offset_def iso8601_utc_def date_time_offset_explicit
        time_offset_explicit two_digits_def str_replace_Cons str_replace_Nil z sign_char_def)
qed

lemma start_time_unix_offset:
  assumes "valid_fields y m d hh mm ss" "0 \<le> oh" "oh \<le> 23" "0 \<le> om" "om \<le> 59"
  shows "start_time_unix mk (iso8601_offset y m d hh mm ss west oh om)
         = Inr (utc_instant y m d hh mm ss - offset_seconds west oh om)"
proof -
  let ?dt = "\<lparr>year = y, month = m, day = d, hour = hh, minute = mm, second = ss,
                  microsecond = 0, tzinfo = Some (offset_seconds west oh om * 1000000)\<rparr>"
  define k where "k = utc_instant y m d hh mm ss - offset_seconds west oh om"
  from utc_instant_bounds [OF assms(1)] offset_seconds_bounds [OF assms(2-5), of west]
  have "- 9007199254740992 < k" "k < 9007199254740992" by (simp_all add: k_def)
  then have k: "\<bar>k\<bar> < 2 ^ 53" by simp
  have "seconds_since_epoch ?dt * 1000000 + microsecond ?dt - offset_seconds west oh om * 1000000
        = k * 1000000"
    by (simp add: seconds_since_epoch_def utc_instant_def k_def algebra_simps)
  moreover have "start_time_unix mk (iso8601_offset y m d hh mm ss west oh om)
        = Inr (int_of_float (binary64_round
            (seconds_since_epoch ?dt * 1000000 + microsecond ?dt
               - offset_seconds west oh om * 1000000) 1000000))"
    by (rule start_time_unix_aware)
       (simp_all add: replace_offset fromisoformat_offset [OF assms])
  ultimately show ?thesis
    using int_of_float_round_exact [of 1000000 k] k by (simp add: k_def)
qed

lemma start_time_unix_utc:
  assumes "valid_fields y m d hh mm ss"
  shows "start_time_unix mk (iso8601_utc y m d hh mm ss) = Inr (utc_instant y m d hh mm ss)"
proof -
  have "start_time_unix mk (iso8601_utc y m d hh mm ss)
        = start_time_unix mk (iso8601_offset y m d hh mm ss False 0 0)"
    by (simp add: start_time_unix_def replace_utc replace_offset)
  with start_time_unix_offset [OF assms, of 0 0 mk False] show ?thesis
    by (simp add: offset_seconds_def)
qed


text \<open>
  Claim C5. The time stored for a reminder is the start time, as parsed, minus sixty
  seconds for each minute of lead, for every start string that parses; and for a
  timestamp \<open>YYYY-MM-DDTHH:MM:SSZ\<close> with valid fields the start time is the UTC instant of
  the fields, in every time zone of the process. For \<open>2025-06-01T10:00:00Z\<close> and 15
  minutes the result is 1748771100, fifteen minutes before 1748772000.
\<close>
theorem reminder_time_is_start_minus_lead:
  "(start_time_unix mktime s = Inr start \<longrightarrow>
      reminder_time_unix mktime s minutes = Inr (start - minutes * 60))
   \<and> (valid_fields y m d hh mm ss \<longrightarrow>
        start_time_unix mktime (iso8601_utc y m d hh mm ss) = Inr (utc_instant y m d hh mm ss)
        \<and> reminder_time_unix mktime (iso8601_utc y m d hh mm ss) minutes
            = Inr (utc_instant y m d hh mm ss - minutes * 60))"
proof (intro conjI impI)
  assume "start_time_unix mktime s = Inr start"
  then show "reminder_time_unix mktime s minutes = Inr (start - minutes * 60)"
    by (simp add: reminder_time_unix_def)
next
  assume v: "valid_fields y m d hh mm ss"
  then show u: "start_time_unix mktime (iso8601_utc y m d hh mm ss)
                = Inr (utc_instant y m d hh mm ss)"
    by (rule start_time_unix_utc)
  then show "reminder_time_unix mktime (iso8601_utc y m d hh mm ss) minutes
             = Inr (utc_instant y m d hh mm ss - minutes * 60)"
    by (simp add: reminder_time_unix_def)
qed

theorem reminder_time_is_start_minus_lead_witness:
  "valid_fields 2025 6 1 10 0 0
   \<and> iso8601_utc 2025 6 1 10 0 0 = ''2025-06-01T10:00:00Z''
   \<and> utc_instant 2025 6 1 10 0 0 = 1748772000
   \<and> start_time_unix zone_ist ''2025-06-01T10:00:00Z'' = Inr 1748772000
   \<and> reminder_time_unix zone_ist ''2025-06-01T10:00:00Z'' 15 = Inr (1748772000 - 15 * 60)
   \<and> start_time_unix zone_ist ''2025-06-01T10:00:00'' = Inr 1748752200
   \<and> reminder_time_unix zone_ist ''2025-06-01T10:00:00'' 15 = Inr (1748752200 - 15 * 60)"
proof -
  have v: "valid_fields 2025 6 1 10 0 0"
    by (simp add: valid_fields_def days_in_month_def DAYS_IN_MONTH_def)
  have s: "iso8601_utc 2025 6 1 10 0 0 = ''2025-06-01T10:00:00Z''" by code_simp
  have u: "utc_instant 2025 6 1 10 0 0 = 1748772000" by code_simp
  have n: "start_time_unix zone_ist ''2025-06-01T10:00:00'' = Inr 1748752200" by code_simp
  from reminder_time_is_start_minus_lead
    [of zone_ist "''2025-06-01T10:00:00''" 1748752200 15 2025 6 1 10 0 0] v s u n
  show ?thesis by simp
qed

text \<open>
  Claim C9 as stated fails: for a start string without an offset, two processes in
  different time zones compute different reminder times.
\<close>
theorem local_zone_dependence:
  "reminder_time_unix zone_utc ''2025-06-01T10:00:00'' 15
   \<noteq> reminder_time_unix zone_ist ''2025-06-01T10:00:00'' 15"
proof -
  have "reminder_time_unix zone_utc ''2025-06-01T10:00:00'' 15 = Inr 1748771100" by code_simp
  moreover
  have "reminder_time_unix zone_ist ''2025-06-01T10:00:00'' 15 = Inr 1748751300" by code_simp
  ultimately show ?thesis by simp
qed

text \<open>
  Claim C9, amended. The reminder time is a function of the start string, the lead and
  the local time zone of the process. For every start string that carries its offset
  (so that, after \<open>Z\<close> has been replaced by \<open>+00:00\<close>, \<open>fromisoformat\<close> yields an aware
  datetime) and for every string that does not parse, it is the same in any two time
  zones; so it is for every timestamp \<open>YYYY-MM-DDTHH:MM:SS\<close> followed by \<open>Z\<close> or by a
  numeric offset.
\<close>
theorem offset_start_time_zone_independent:
  "((\<forall>dt. fromisoformat (str_replace (CHR ''Z'') ''+00:00'' s) = Some dt \<longrightarrow> tzinfo dt \<noteq> None)
      \<longrightarrow> reminder_time_unix mktime1 s minutes = reminder_time_unix mktime2 s minutes)
   \<and> (valid_fields y m d hh mm ss \<longrightarrow>
        reminder_time_unix mktime1 (iso8601_utc y m d hh mm ss) minutes
        = reminder_time_unix mktime2 (iso8601_utc y m d hh mm ss) minutes)
   \<and> (valid_fields y m d hh mm ss \<and> 0 \<le> oh \<and> oh \<le> 23 \<and> 0 \<le> om \<and> om \<le> 59 \<longrightarrow>
        reminder_time_unix mktime1 (iso8601_offset y m d hh mm ss west oh om) minutes
        = reminder_time_unix mktime2 (iso8601_offset y m d hh mm ss west oh om) minutes)"
proof (intro conjI impI)
  assume aware: "\<forall>dt. fromisoformat (str_replace (CHR ''Z'') ''+00:00'' s) = Some dt
                   \<longrightarrow> tzinfo dt \<noteq> None"
  show "reminder_time_unix mktime1 s minutes = reminder_time_unix mktime2 s minutes"
  proof (cases "fromisoformat (str_replace (CHR ''Z'') ''+00:00'' s)")
    case None
    then show ?thesis by (simp add: reminder_time_unix_def start_time_unix_def)
  next
    case (Some dt)
    with aware obtain off where "tzinfo dt = Some off" by auto
    with Some show ?thesis
      by (simp add: reminder_time_unix_def start_time_unix_def timestamp_def)
  qed
next
  assume "valid_fields y m d hh mm ss"
  then show "reminder_time_unix mktime1 (iso8601_utc y m d hh mm ss) minutes
        = reminder_time_unix mktime2 (iso8601_utc y m d hh mm ss) minutes"
    by (simp add: reminder_time_unix_def start_time_unix_utc)
next
  assume "valid_fields y m d hh mm ss \<and> 0 \<le> oh \<and> oh \<le> 23 \<and> 0 \<le> om \<and> om \<le> 59"
  then show "reminder_time_unix mktime1 (iso8601_offset y m d hh mm ss west oh om) minutes
        = reminder_time_unix mktime2 (iso8601_offset y m d hh mm ss west oh om) minutes"
    by (simp add: reminder_time_unix_def start_time_unix_offset)
qed

theorem offset_start_time_zone_independent_witness:
  "fromisoformat (str_replace (CHR ''Z'') ''+00:00'' ''2025-06-01T10:00:00Z'')
     = Some \<lparr>year = 2025, month = 6, day = 1, hour = 10, minute = 0, second = 0,
              microsecond = 0, tzinfo = Some 0\<rparr>
   \<and> reminder_time_unix zone_utc ''2025-06-01T10:00:00Z'' 15
       = reminder_time_unix zone_ist ''2025-06-01T10:00:00Z'' 15
   \<and> reminder_time_unix zone_ist ''2025-06-01T10:00:00Z'' 15 = Inr 1748771100
   \<and> valid_fields 2025 6 1 15 30 0
   \<and> iso8601_offset 2025 6 1 15 30 0 False 5 30 = ''2025-06-01T15:30:00+05:30''
   \<and> reminder_time_unix zone_utc ''2025-06-01T15:30:00+05:30'' 15
       = reminder_time_unix zone_ist ''2025-06-01T15:30:00+05:30'' 15"
proof -
  have p: "fromisoformat (str_replace (CHR ''Z'') ''+00:00'' ''2025-06-01T10:00:00Z'')
     = Some \<lparr>year = 2025, month = 6, day = 1, hour = 10, minute = 0, second = 0,
              microsecond = 0, tzinfo = Some 0\<rparr>"
    by code_simp
  then have h: "\<forall>dt. fromisoformat (str_replace (CHR ''Z'') ''+00:00'' ''2025-06-01T10:00:00Z'')
                = Some dt \<longrightarrow> tzinfo dt \<noteq> None"
    by auto
  have r: "reminder_time_unix zone_ist ''2025-06-01T10:00:00Z'' 15 = Inr 1748771100"
    by code_simp
  have v: "valid_fields 2025 6 1 15 30 0"
    by (simp add: valid_fields_def days_in_month_def DAYS_IN_MONTH_def)
  have s: "iso8601_offset 2025 6 1 15 30 0 False 5 30 = ''2025-06-01T15:30:00+05:30''"
    by code_simp
  from offset_start_time_zone_independent
    [of "''2025-06-01T10:00:00Z''" zone_utc 15 zone_ist 2025 6 1 15 30 0 5 30 False]
    h p r v s
  show ?thesis by simp
qed

lemma add_reminder_no_value_error:
  "reminder_time_unix mk s minutes = Inr t \<Longrightarrow>
   fst (add_reminder mk uid n url s minutes db) \<noteq> Inl ValueError"
  by (simp add: add_reminder_def split: option.splits)

text \<open>
  Claim C10. A timestamp \<open>YYYY-MM-DDTHH:MM:SS\<close> with a numeric offset \<open>+HH:MM\<close> or
  \<open>-HH:MM\<close> (hours up to 23, minutes up to 59) is accepted: \<open>add_reminder\<close> does not
  raise \<open>ValueError\<close>, and the reminder time is computed from the UTC instant, the
  instant of the fields minus the offset. So \<open>+00:00\<close> gives what \<open>Z\<close> gives, and two
  spellings of one instant give the same reminder time.
\<close>
theorem numeric_offset_accepted:
  assumes "valid_fields y m d hh mm ss" "0 \<le> oh" "oh \<le> 23" "0 \<le> om" "om \<le> 59"
  shows "reminder_time_unix mktime (iso8601_offset y m d hh mm ss west oh om) minutes
         = Inr (utc_instant y m d hh mm ss - offset_seconds west oh om - minutes * 60)
    \<and> fst (add_reminder mktime user_id contest_name contest_url
              (iso8601_offset y m d hh mm ss west oh om) minutes db) \<noteq> Inl ValueError
    \<and> reminder_time_unix mktime (iso8601_offset y m d hh mm ss False 0 0) minutes
        = reminder_time_unix mktime (iso8601_utc y m d hh mm ss) minutes
    \<and> (valid_fields y' m' d' hh' mm' ss' \<and> 0 \<le> oh' \<and> oh' \<le> 23 \<and> 0 \<le> om' \<and> om' \<le> 59
        \<and> utc_instant y' m' d' hh' mm' ss' - offset_seconds west' oh' om'
            = utc_instant y m d hh mm ss - offset_seconds west oh om
        \<longrightarrow> reminder_time_unix mktime' (iso8601_offset y' m' d' hh' mm' ss' west' oh' om') minutes
            = reminder_time_unix mktime (iso8601_offset y m d hh mm ss west oh om) minutes)"
proof -
  have a: "reminder_time_unix mktime (iso8601_offset y m d hh mm ss west oh om) minutes
         = Inr (utc_instant y m d hh mm ss - offset_seconds west oh om - minutes * 60)"
    by (simp add: reminder_time_unix_def start_time_unix_offset [OF assms])
  have b: "reminder_time_unix mktime (iso8601_offset y m d hh mm ss False 0 0) minutes
        = reminder_time_unix mktime (iso8601_utc y m d hh mm ss) minutes"
    by (simp add: reminder_time_unix_def start_time_unix_def replace_utc replace_offset)
  have c: "reminder_time_unix mktime' (iso8601_offset y' m' d' hh' mm' ss' west' oh' om') minutes
            = reminder_time_unix mktime (iso8601_offset y m d hh mm ss west oh om) minutes"
    if "valid_fields y' m' d' hh' mm' ss'" "0 \<le> oh'" "oh' \<le> 23" "0 \<le> om'" "om' \<le> 59"
      "utc_instant y' m' d' hh' mm' ss' - offset_seconds west' oh' om'
            = utc_instant y m d hh mm ss - offset_seconds west oh om"
    using that(6)
    by (simp add: reminder_time_unix_def start_time_unix_offset [OF assms]
        start_time_unix_offset [OF that(1-5)])
  from a b c add_reminder_no_value_error [OF a] show ?thesis by blast
qed

theorem numeric_offset_accepted_witness:
  "valid_fields 2025 6 1 15 30 0
   \<and> iso8601_offset 2025 6 1 15 30 0 False 5 30 = ''2025-06-01T15:30:00+05:30''
   \<and> iso8601_offset 2025 6 1 10 0 0 False 0 0 = ''2025-06-01T10:00:00+00:00''
   \<and> reminder_time_unix zone_ist ''2025-06-01T15:30:00+05:30'' 15 = Inr 1748771100
   \<and> fst (add_reminder zone_ist 7 ''Round A'' ''https://x/41''
             ''2025-06-01T15:30:00+05:30'' 15 empty_db) \<noteq> Inl ValueError
   \<and> reminder_time_unix zone_utc ''2025-06-01T10:00:00+00:00'' 15
       = reminder_time_unix zone_ist ''2025-06-01T15:30:00+05:30'' 15"
proof -
  have v: "valid_fields 2025 6 1 15 30 0" "valid_fields 2025 6 1 10 0 0"
    by (simp_all add: valid_fields_def days_in_month_def DAYS_IN_MONTH_def)
  have s: "iso8601_offset 2025 6 1 15 30 0 False 5 30 = ''2025-06-01T15:30:00+05:30''"
    "iso8601_offset 2025 6 1 10 0 0 False 0 0 = ''2025-06-01T10:00:00+00:00''"
    by code_simp+
  have u: "utc_instant 2025 6 1 15 30 0 - offset_seconds False 5 30 = 1748772000"
    "utc_instant 2025 6 1 10 0 0 - offset_seconds False 0 0 = 1748772000"
    by code_simp+
  from numeric_offset_accepted [OF v(1), of 5 30 zone_ist False 15 7 "''Round A''"
      "''https://x/41''" empty_db 2025 6 1 10 0 0 0 0 False zone_utc] v s u
  show ?thesis by simp
qed

end
